theory Spec2Isabelle
  imports Complex_Main
begin

section \<open>Personal Library Manager: the record store of both front-ends\<close>

text \<open>
  The repository holds two front-ends over the same record model: the text-menu program
  \<^verbatim>\<open>library_manager.py\<close> and the form program \<^verbatim>\<open>app.py\<close>. Both define functions of the
  same names, so the definitions below carry the prefix \<open>lm_\<close> (menu) or \<open>app_\<close> (form).

  Python strings are modelled as Isabelle strings, read as sequences of code points
  below 256. Python integers are \<open>int\<close>. The values a prompt or a widget hands to a
  function are the function's arguments; what a function prints is the \<open>message\<close> it
  returns, and the list it mutates in place is returned updated. The rendering of tables
  and \<^verbatim>\<open>display_books\<close>, which change nothing, are left out.
\<close>

subsection \<open>Strings: \<^verbatim>\<open>str.lower\<close>, \<^verbatim>\<open>str.strip\<close>, \<^verbatim>\<open>in\<close>, \<^verbatim>\<open>or\<close>\<close>

text \<open>
  \<^verbatim>\<open>str.lower()\<close> on code points below 256: the letters A to Z and the accented capitals
  \<open>0xC0\<close> to \<open>0xDE\<close> (the multiplication sign \<open>0xD7\<close> apart) move up by 32.
\<close>

definition lower_char :: "char \<Rightarrow> char" where
  "lower_char c =
     (let n = (of_char c :: nat)
      in if (65 \<le> n \<and> n \<le> 90) \<or> (192 \<le> n \<and> n \<le> 222 \<and> n \<noteq> 215)
         then char_of (n + 32) else c)"

definition lower :: "string \<Rightarrow> string" where
  "lower s = map lower_char s"

text \<open>\<^verbatim>\<open>str.isspace\<close> for one code point below 256, as \<^verbatim>\<open>str.strip()\<close> uses it.\<close>

definition isspace :: "char \<Rightarrow> bool" where
  "isspace c =
     (let n = (of_char c :: nat)
      in (9 \<le> n \<and> n \<le> 13) \<or> (28 \<le> n \<and> n \<le> 32) \<or> n = 133 \<or> n = 160)"

definition strip :: "string \<Rightarrow> string" where
  "strip s = rev (dropWhile isspace (rev (dropWhile isspace s)))"

text \<open>\<^verbatim>\<open>s.startswith(q)\<close> and the substring test \<^verbatim>\<open>q in s\<close>.\<close>

fun startswith :: "string \<Rightarrow> string \<Rightarrow> bool" where
  "startswith s [] = True"
| "startswith [] (q # qs) = False"
| "startswith (c # cs) (q # qs) = (c = q \<and> startswith cs qs)"

fun str_in :: "string \<Rightarrow> string \<Rightarrow> bool" where
  "str_in q [] = (q = [])"
| "str_in q (c # cs) = (startswith (c # cs) q \<or> str_in q cs)"

text \<open>\<^verbatim>\<open>a or b\<close> on strings and on integers: the first operand unless it is falsy.\<close>

definition or_str :: "string \<Rightarrow> string \<Rightarrow> string" where
  "or_str a b = (if a \<noteq> [] then a else b)"

definition or_int :: "int \<Rightarrow> int \<Rightarrow> int" where
  "or_int a b = (if a \<noteq> 0 then a else b)"

subsection \<open>Books and libraries\<close>

text \<open>
  A book is the dictionary with the five keys \<^verbatim>\<open>Title\<close>, \<^verbatim>\<open>Author\<close>, \<^verbatim>\<open>Year\<close>,
  \<^verbatim>\<open>Genre\<close>, \<^verbatim>\<open>Read\<close> that \<^verbatim>\<open>add_book\<close> builds; a library is the Python list
  of them. Every dictionary in the list is its own object (\<^verbatim>\<open>add_book\<close> and
  \<^verbatim>\<open>json.load\<close> create a fresh one per entry), so mutating the dictionary the loop
  found is an update of the list at that position.
\<close>

record book =
  Title :: string
  Author :: string
  Year :: int
  Genre :: string
  Read :: bool

type_synonym library = "book list"

text \<open>What the operation reports to the user.\<close>

datatype message =
    BookAdded         \<comment> \<open>\<^verbatim>\<open>Book added successfully!\<close>\<close>
  | FillAllFields     \<comment> \<open>\<^verbatim>\<open>Please fill in all fields.\<close>\<close>
  | BookRemoved       \<comment> \<open>\<^verbatim>\<open>Book removed successfully!\<close>\<close>
  | BookUpdated       \<comment> \<open>\<^verbatim>\<open>Book updated successfully!\<close>\<close>
  | BookNotFound      \<comment> \<open>\<^verbatim>\<open>Book not found.\<close>\<close>
  | NoMessage         \<comment> \<open>nothing is reported\<close>

text \<open>The test in each \<^verbatim>\<open>for\<close> loop: \<^verbatim>\<open>book["Title"].lower() == title.lower()\<close>.\<close>

definition title_matches :: "string \<Rightarrow> book \<Rightarrow> bool" where
  "title_matches title book = (lower (Title book) = lower title)"

text \<open>
  \<^verbatim>\<open>for book in library: if ...: <mutate book>; return\<close>: the first book that passes
  the test is replaced by its mutated self; \<open>None\<close> when the loop falls through.
\<close>

fun update_first :: "(book \<Rightarrow> bool) \<Rightarrow> (book \<Rightarrow> book) \<Rightarrow> library \<Rightarrow> library option" where
  "update_first p f [] = None"
| "update_first p f (book # rest) =
     (if p book then Some (f book # rest)
      else map_option (Cons book) (update_first p f rest))"

subsection \<open>The persisted format: \<^verbatim>\<open>json.dump(library, file, indent=4)\<close>\<close>

text \<open>
  The values of Python's \<^verbatim>\<open>json\<close> module. An object keeps its members in insertion
  order, as a Python dictionary does. A number with a fraction or an exponent (a Python
  float) is carried as its numeral: the double it denotes is not computed.
\<close>

datatype json =
    JNull
  | JBool bool
  | JInt int
  | JFloat string
  | JStr string
  | JArray "json list"
  | JObject "(string \<times> json) list"

text \<open>The dictionary \<^verbatim>\<open>add_book\<close> appends, and the list of them.\<close>

definition book_dict :: "book \<Rightarrow> json" where
  "book_dict book =
     JObject [(''Title'', JStr (Title book)), (''Author'', JStr (Author book)),
              (''Year'', JInt (Year book)), (''Genre'', JStr (Genre book)),
              (''Read'', JBool (Read book))]"

definition library_json :: "library \<Rightarrow> json" where
  "library_json library = JArray (map book_dict library)"

text \<open>
  The encoder, as \<^verbatim>\<open>json.dumps\<close> runs it with \<^verbatim>\<open>indent=4\<close> and its other defaults
  (\<^verbatim>\<open>ensure_ascii=True\<close>, item separator \<^verbatim>\<open>,\<close> and key separator \<^verbatim>\<open>: \<close>).
  A float is written as the numeral it was read from, where Python writes the shortest
  numeral of the double; the programs never create a float.
\<close>

definition hex_digit :: "nat \<Rightarrow> char" where
  "hex_digit d = (if d < 10 then char_of (48 + d) else char_of (87 + d))"

text \<open>\<^verbatim>\<open>'\\u{0:04x}'.format(n)\<close>\<close>

definition u_escape :: "nat \<Rightarrow> string" where
  "u_escape n =
     [CHR 0x5C, CHR ''u'', hex_digit (n div 4096 mod 16), hex_digit (n div 256 mod 16),
      hex_digit (n div 16 mod 16), hex_digit (n mod 16)]"

definition escape_char :: "char \<Rightarrow> string" where
  "escape_char c =
     (if c = CHR 0x22 then [CHR 0x5C, CHR 0x22]
      else if c = CHR 0x5C then [CHR 0x5C, CHR 0x5C]
      else if c = CHR 0x0A then [CHR 0x5C, CHR ''n'']
      else if c = CHR 0x0D then [CHR 0x5C, CHR ''r'']
      else if c = CHR 0x09 then [CHR 0x5C, CHR ''t'']
      else if c = CHR 0x08 then [CHR 0x5C, CHR ''b'']
      else if c = CHR 0x0C then [CHR 0x5C, CHR ''f'']
      else if 32 \<le> (of_char c :: nat) \<and> (of_char c :: nat) \<le> 126 then [c]
      else u_escape (of_char c))"

definition encode_basestring_ascii :: "string \<Rightarrow> string" where
  "encode_basestring_ascii s = CHR 0x22 # concat (map escape_char s) @ [CHR 0x22]"

fun nat_repr :: "nat \<Rightarrow> string" where
  "nat_repr n =
     (if n < 10 then [char_of (48 + n)] else nat_repr (n div 10) @ [char_of (48 + n mod 10)])"

declare nat_repr.simps [simp del]

definition int_repr :: "int \<Rightarrow> string" where
  "int_repr i = (if i < 0 then CHR ''-'' # nat_repr (nat (- i)) else nat_repr (nat i))"

definition newline_indent :: "nat \<Rightarrow> string" where
  "newline_indent level = CHR 0x0A # replicate (4 * level) CHR '' ''"

fun join :: "string \<Rightarrow> string list \<Rightarrow> string" where
  "join sep [] = []"
| "join sep [x] = x"
| "join sep (x # y # ys) = x @ sep @ join sep (y # ys)"

fun encode :: "nat \<Rightarrow> json \<Rightarrow> string" where
  "encode level JNull = ''null''"
| "encode level (JBool b) = (if b then ''true'' else ''false'')"
| "encode level (JInt i) = int_repr i"
| "encode level (JFloat lexeme) = lexeme"
| "encode level (JStr s) = encode_basestring_ascii s"
| "encode level (JArray values) =
     (if values = [] then ''[]''
      else ''['' @ newline_indent (Suc level)
           @ join ('','' @ newline_indent (Suc level)) (map (encode (Suc level)) values)
           @ newline_indent level @ '']'')"
| "encode level (JObject members) =
     (if members = [] then ''{}''
      else ''{'' @ newline_indent (Suc level)
           @ join ('','' @ newline_indent (Suc level))
               (map (\<lambda>member. encode_basestring_ascii (fst member) @ '': ''
                                @ encode (Suc level) (snd member)) members)
           @ newline_indent level @ ''}'')"

definition json_dumps :: "json \<Rightarrow> string" where
  "json_dumps obj = encode 0 obj"

subsection \<open>Reading it back: \<^verbatim>\<open>json.load(file)\<close>\<close>

text \<open>
  The decoder follows \<^verbatim>\<open>json.decoder\<close> and \<^verbatim>\<open>json.scanner\<close>: a position in the
  text is the rest of the text from there on, and a \<^verbatim>\<open>JSONDecodeError\<close> is \<open>None\<close>.
\<close>

definition is_ws :: "char \<Rightarrow> bool" where
  "is_ws c = (c = CHR '' '' \<or> c = CHR 0x09 \<or> c = CHR 0x0A \<or> c = CHR 0x0D)"

definition skip_ws :: "string \<Rightarrow> string" where
  "skip_ws s = dropWhile is_ws s"

definition hex_val :: "char \<Rightarrow> nat option" where
  "hex_val c =
     (let n = (of_char c :: nat)
      in if 48 \<le> n \<and> n \<le> 57 then Some (n - 48)
         else if 97 \<le> n \<and> n \<le> 102 then Some (n - 87)
         else if 65 \<le> n \<and> n \<le> 70 then Some (n - 55)
         else None)"

definition hex4 :: "char \<Rightarrow> char \<Rightarrow> char \<Rightarrow> char \<Rightarrow> nat option" where
  "hex4 a b c d =
     (case (hex_val a, hex_val b, hex_val c, hex_val d) of
        (Some x, Some y, Some z, Some w) \<Rightarrow> Some (4096 * x + 256 * y + 16 * z + w)
      | _ \<Rightarrow> None)"

text \<open>The character a backslash escape stands for (\<^verbatim>\<open>BACKSLASH\<close> in \<^verbatim>\<open>json.decoder\<close>).\<close>

definition backslash :: "char \<Rightarrow> char option" where
  "backslash e =
     (if e = CHR 0x22 then Some (CHR 0x22)
      else if e = CHR 0x5C then Some (CHR 0x5C)
      else if e = CHR ''/'' then Some (CHR ''/'')
      else if e = CHR ''b'' then Some (CHR 0x08)
      else if e = CHR ''f'' then Some (CHR 0x0C)
      else if e = CHR ''n'' then Some (CHR 0x0A)
      else if e = CHR ''r'' then Some (CHR 0x0D)
      else if e = CHR ''t'' then Some (CHR 0x09)
      else None)"

definition cons_char :: "char \<Rightarrow> (string \<times> string) option \<Rightarrow> (string \<times> string) option" where
  "cons_char c r = map_option (\<lambda>(s, rest). (c # s, rest)) r"

text \<open>
  \<^verbatim>\<open>scanstring\<close> (strict) from just after the opening quote: the decoded string and
  the text after the closing quote. A \<^verbatim>\<open>\uXXXX\<close> escape of a code point from
  256 on denotes a character outside the strings modelled here and gives \<open>None\<close>.
\<close>

fun scanstring :: "string \<Rightarrow> (string \<times> string) option" where
  "scanstring [] = None"
| "scanstring (c # cs) =
     (if c = CHR 0x22 then Some ([], cs)
      else if c = CHR 0x5C then
        (case cs of
           [] \<Rightarrow> None
         | e # r \<Rightarrow>
             if e = CHR ''u'' then
               (case r of
                  h1 # h2 # h3 # h4 # r' \<Rightarrow>
                    (case hex4 h1 h2 h3 h4 of
                       Some n \<Rightarrow> if n < 256 then cons_char (char_of n) (scanstring r') else None
                     | None \<Rightarrow> None)
                | _ \<Rightarrow> None)
             else
               (case backslash e of
                  Some ch \<Rightarrow> cons_char ch (scanstring r)
                | None \<Rightarrow> None))
      else if (of_char c :: nat) < 32 then None
      else cons_char c (scanstring cs))"

text \<open>
  \<^verbatim>\<open>NUMBER_RE\<close>, the pattern
  \<^verbatim>\<open>(-?(?:0|[1-9][0-9]*))(\.[0-9]+)?([eE][-+]?[0-9]+)?\<close>, one group at a time.
\<close>

definition is_digit :: "char \<Rightarrow> bool" where
  "is_digit c = (48 \<le> (of_char c :: nat) \<and> (of_char c :: nat) \<le> 57)"

definition digits_value :: "string \<Rightarrow> nat" where
  "digits_value ds = foldl (\<lambda>a c. 10 * a + (of_char c - 48)) 0 ds"

definition match_integer :: "string \<Rightarrow> (string \<times> string) option" where
  "match_integer s =
     (case s of
        [] \<Rightarrow> None
      | c # cs \<Rightarrow>
          if c = CHR ''0'' then Some ([c], cs)
          else if is_digit c then Some (c # takeWhile is_digit cs, dropWhile is_digit cs)
          else None)"

definition match_frac :: "string \<Rightarrow> string \<times> string" where
  "match_frac s =
     (case s of
        c # d # cs \<Rightarrow>
          if c = CHR ''.'' \<and> is_digit d
          then (c # d # takeWhile is_digit cs, dropWhile is_digit cs)
          else ([], s)
      | _ \<Rightarrow> ([], s))"

definition match_exp :: "string \<Rightarrow> string \<times> string" where
  "match_exp s =
     (case s of
        [] \<Rightarrow> ([], s)
      | c # cs \<Rightarrow>
          if c = CHR ''e'' \<or> c = CHR ''E'' then
            (let sign = (case cs of
                           [] \<Rightarrow> []
                         | d # ds \<Rightarrow> if d = CHR ''-'' \<or> d = CHR ''+'' then [d] else []);
                 ds = drop (length sign) cs
             in if takeWhile is_digit ds = [] then ([], s)
                else (c # sign @ takeWhile is_digit ds, dropWhile is_digit ds))
          else ([], s))"

definition match_number :: "string \<Rightarrow> (json \<times> string) option" where
  "match_number s =
     (let minus = (case s of [] \<Rightarrow> False | c # cs \<Rightarrow> c = CHR ''-'');
          s1 = (if minus then tl s else s)
      in case match_integer s1 of
           None \<Rightarrow> None
         | Some (integer, s2) \<Rightarrow>
             (let (frac, s3) = match_frac s2;
                  (expo, s4) = match_exp s3
              in if frac = [] \<and> expo = []
                 then Some (JInt (if minus then - int (digits_value integer)
                                  else int (digits_value integer)), s4)
                 else Some (JFloat ((if minus then ''-'' else []) @ integer @ frac @ expo), s4)))"

text \<open>\<^verbatim>\<open>dict(pairs)\<close>: a repeated key keeps its first place and takes the last value.\<close>

fun dict_set :: "string \<Rightarrow> json \<Rightarrow> (string \<times> json) list \<Rightarrow> (string \<times> json) list" where
  "dict_set k v [] = [(k, v)]"
| "dict_set k v (p # ps) = (if fst p = k then (k, v) # ps else p # dict_set k v ps)"

definition dict :: "(string \<times> json) list \<Rightarrow> (string \<times> json) list" where
  "dict pairs = foldl (\<lambda>d p. dict_set (fst p) (snd p) d) [] pairs"

text \<open>
  \<^verbatim>\<open>scan_once\<close> with the bodies of \<^verbatim>\<open>JSONArray\<close> and \<^verbatim>\<open>JSONObject\<close>, each the
  \<^verbatim>\<open>while True\<close> of its function (the first entered at a value, the second after the
  opening quote of a key). The three call each other, so they share a counter that every
  call decreases; \<open>json_loads\<close> starts it high enough for the whole text. Python's own
  limits (the recursion depth, the 4300 digits of an integer literal) are not modelled.
\<close>

fun scan_once :: "nat \<Rightarrow> string \<Rightarrow> (json \<times> string) option"
  and array_loop :: "nat \<Rightarrow> json list \<Rightarrow> string \<Rightarrow> (json \<times> string) option"
  and object_loop :: "nat \<Rightarrow> (string \<times> json) list \<Rightarrow> string \<Rightarrow> (json \<times> string) option"
where
  "scan_once 0 s = None"
| "scan_once (Suc n) s =
     (case s of
        [] \<Rightarrow> None
      | c # cs \<Rightarrow>
          if c = CHR 0x22 then
            (case scanstring cs of
               None \<Rightarrow> None
             | Some (str, rest) \<Rightarrow> Some (JStr str, rest))
          else if c = CHR ''{'' then
            (case skip_ws cs of
               [] \<Rightarrow> None
             | d # rest \<Rightarrow>
                 if d = CHR ''}'' then Some (JObject [], rest)
                 else if d = CHR 0x22 then object_loop n [] rest
                 else None)
          else if c = CHR ''['' then
            (case skip_ws cs of
               [] \<Rightarrow> None
             | d # rest \<Rightarrow>
                 if d = CHR '']'' then Some (JArray [], rest)
                 else array_loop n [] (d # rest))
          else if startswith s ''null'' then Some (JNull, drop 4 s)
          else if startswith s ''true'' then Some (JBool True, drop 4 s)
          else if startswith s ''false'' then Some (JBool False, drop 5 s)
          else
            (case match_number s of
               Some r \<Rightarrow> Some r
             | None \<Rightarrow>
                 if startswith s ''NaN'' then Some (JFloat ''NaN'', drop 3 s)
                 else if startswith s ''Infinity'' then Some (JFloat ''Infinity'', drop 8 s)
                 else if startswith s ''-Infinity'' then Some (JFloat ''-Infinity'', drop 9 s)
                 else None))"
| "array_loop 0 values s = None"
| "array_loop (Suc n) values s =
     (case scan_once n s of
        None \<Rightarrow> None
      | Some (v, rest) \<Rightarrow>
          (case skip_ws rest of
             [] \<Rightarrow> None
           | d # rest' \<Rightarrow>
               if d = CHR '']'' then Some (JArray (values @ [v]), rest')
               else if d = CHR '','' then array_loop n (values @ [v]) (skip_ws rest')
               else None))"
| "object_loop 0 pairs s = None"
| "object_loop (Suc n) pairs s =
     (case scanstring s of
        None \<Rightarrow> None
      | Some (key, rest) \<Rightarrow>
          (case skip_ws rest of
             [] \<Rightarrow> None
           | colon # rest1 \<Rightarrow>
               if colon \<noteq> CHR '':'' then None
               else
                 (case scan_once n (skip_ws rest1) of
                    None \<Rightarrow> None
                  | Some (v, rest2) \<Rightarrow>
                      (case skip_ws rest2 of
                         [] \<Rightarrow> None
                       | d # rest3 \<Rightarrow>
                           if d = CHR ''}'' then Some (JObject (dict (pairs @ [(key, v)])), rest3)
                           else if d = CHR '','' then
                             (case skip_ws rest3 of
                                [] \<Rightarrow> None
                              | q # rest4 \<Rightarrow>
                                  if q = CHR 0x22
                                  then object_loop n (pairs @ [(key, v)]) rest4
                                  else None)
                           else None))))"

text \<open>
  \<^verbatim>\<open>JSONDecoder.decode\<close>: white space, one value, white space, and then the end of
  the text (anything else is \<^verbatim>\<open>Extra data\<close>).
\<close>

definition json_loads :: "string \<Rightarrow> json option" where
  "json_loads s =
     (case scan_once (2 * length s + 1) (skip_ws s) of
        None \<Rightarrow> None
      | Some (obj, rest) \<Rightarrow> if skip_ws rest = [] then Some obj else None)"

subsection \<open>Values that are written and read back exactly\<close>

text \<open>
  Three notions for the proofs about the pair of encoder and decoder. A value is
  \<open>exact\<close> when it holds no float and no object of it has a key twice; every
  library is. \<open>json_size\<close> bounds the calls the decoder makes on the value's text.
  A text is \<open>delimited\<close> when a number written before it ends where the text starts.
\<close>

fun exact_json :: "json \<Rightarrow> bool" where
  "exact_json (JFloat lexeme) = False"
| "exact_json (JArray values) = list_all exact_json values"
| "exact_json (JObject members) =
     (distinct (map fst members) \<and> list_all (\<lambda>member. exact_json (snd member)) members)"
| "exact_json v = True"

definition delimited :: "string \<Rightarrow> bool" where
  "delimited rest =
     (case rest of
        [] \<Rightarrow> True
      | c # cs \<Rightarrow> \<not> is_digit c \<and> c \<noteq> CHR ''.'' \<and> c \<noteq> CHR ''e'' \<and> c \<noteq> CHR ''E'')"

fun json_size :: "json \<Rightarrow> nat" where
  "json_size (JArray values) = Suc (sum_list (map (\<lambda>v. Suc (json_size v)) values))"
| "json_size (JObject members) =
     Suc (sum_list (map (\<lambda>member. Suc (json_size (snd member))) members))"
| "json_size v = 1"

subsection \<open>The backing file\<close>

text \<open>
  The files of the working directory: a name has a text or no file. \<^verbatim>\<open>LIBRARY_FILE\<close>
  is a global of each program and the first argument here.
\<close>

type_synonym files = "string \<Rightarrow> string option"

definition lm_LIBRARY_FILE :: string where
  "lm_LIBRARY_FILE = ''library.txt''"

definition app_LIBRARY_FILE :: string where
  "app_LIBRARY_FILE = ''library.json''"

text \<open>
  \<^verbatim>\<open>load_library\<close> returns what \<^verbatim>\<open>json.load\<close> returns, and the empty list on
  \<^verbatim>\<open>FileNotFoundError\<close> and on \<^verbatim>\<open>JSONDecodeError\<close>.
\<close>

definition load_library :: "string \<Rightarrow> files \<Rightarrow> json" where
  "load_library LIBRARY_FILE files =
     (case files LIBRARY_FILE of
        None \<Rightarrow> JArray []
      | Some text \<Rightarrow>
          (case json_loads text of
             None \<Rightarrow> JArray []
           | Some obj \<Rightarrow> obj))"

text \<open>\<^verbatim>\<open>save_library\<close> opens the file for writing, which truncates it, and dumps.\<close>

definition save_library :: "string \<Rightarrow> json \<Rightarrow> files \<Rightarrow> files" where
  "save_library LIBRARY_FILE library files = files(LIBRARY_FILE \<mapsto> json_dumps library)"

subsection \<open>The format the specification expects of the file\<close>

text \<open>
  The specification describes the file as an ordered list of objects, each with the
  fields \<^verbatim>\<open>Title\<close> (string), \<^verbatim>\<open>Author\<close> (string), \<^verbatim>\<open>Year\<close> (integer), \<^verbatim>\<open>Genre\<close>
  (string) and \<^verbatim>\<open>Read\<close> (boolean). No function of the code tests this; the two
  predicates say it, for the statements about \<^verbatim>\<open>load_library\<close>.
\<close>

definition is_book_object :: "json \<Rightarrow> bool" where
  "is_book_object v =
     (case v of
        JObject members \<Rightarrow>
          length members = 5
          \<and> (case map_of members ''Title'' of Some (JStr s) \<Rightarrow> True | _ \<Rightarrow> False)
          \<and> (case map_of members ''Author'' of Some (JStr s) \<Rightarrow> True | _ \<Rightarrow> False)
          \<and> (case map_of members ''Year'' of Some (JInt i) \<Rightarrow> True | _ \<Rightarrow> False)
          \<and> (case map_of members ''Genre'' of Some (JStr s) \<Rightarrow> True | _ \<Rightarrow> False)
          \<and> (case map_of members ''Read'' of Some (JBool b) \<Rightarrow> True | _ \<Rightarrow> False)
      | _ \<Rightarrow> False)"

definition is_book_list :: "json \<Rightarrow> bool" where
  "is_book_list v = (case v of JArray values \<Rightarrow> list_all is_book_object values | _ \<Rightarrow> False)"

subsection \<open>The menu front-end (\<^verbatim>\<open>library_manager.py\<close>)\<close>

text \<open>\<^verbatim>\<open>.strip().lower() == "yes"\<close>, the reading of a yes/no answer.\<close>

definition answer_yes :: "string \<Rightarrow> bool" where
  "answer_yes answer = (lower (strip answer) = ''yes'')"

definition lm_add_book :: "library \<Rightarrow> string \<Rightarrow> string \<Rightarrow> int \<Rightarrow> string \<Rightarrow> string \<Rightarrow> library \<times> message" where
  "lm_add_book library title author year genre answer =
     (library @ [\<lparr>Title = title, Author = author, Year = year, Genre = genre,
                  Read = answer_yes answer\<rparr>],
      BookAdded)"

text \<open>\<^verbatim>\<open>library.remove(book)\<close> deletes the first element equal to \<open>book\<close>: \<open>remove1\<close>.\<close>

definition lm_remove_book :: "library \<Rightarrow> string \<Rightarrow> library \<times> message" where
  "lm_remove_book library title =
     (case find (title_matches title) library of
        Some book \<Rightarrow> (remove1 book library, BookRemoved)
      | None \<Rightarrow> (library, BookNotFound))"

definition lm_edit_fields :: "string \<Rightarrow> string \<Rightarrow> int \<Rightarrow> string \<Rightarrow> string \<Rightarrow> book \<Rightarrow> book" where
  "lm_edit_fields new_title new_author new_year new_genre answer book =
     book\<lparr>Title := or_str new_title (Title book),
          Author := or_str new_author (Author book),
          Year := or_int new_year (Year book),
          Genre := or_str new_genre (Genre book),
          Read := answer_yes answer\<rparr>"

definition lm_edit_book ::
  "library \<Rightarrow> string \<Rightarrow> string \<Rightarrow> string \<Rightarrow> int \<Rightarrow> string \<Rightarrow> string \<Rightarrow> library \<times> message" where
  "lm_edit_book library title new_title new_author new_year new_genre answer =
     (case update_first (title_matches title)
             (lm_edit_fields new_title new_author new_year new_genre answer) library of
        Some library' \<Rightarrow> (library', BookUpdated)
      | None \<Rightarrow> (library, BookNotFound))"

text \<open>
  \<^verbatim>\<open>search_book\<close> asks for the choice \<^verbatim>\<open>"1"\<close> (title) or \<^verbatim>\<open>"2"\<close> (author) and for the
  search term; the comprehension that follows does not use the choice.
\<close>

definition lm_search_book :: "library \<Rightarrow> string \<Rightarrow> string \<Rightarrow> library" where
  "lm_search_book library choice term =
     (let query = lower (strip term)
      in filter (\<lambda>book. str_in query (lower (Title book)) \<or> str_in query (lower (Author book)))
           library)"

text \<open>
  One round of the \<^verbatim>\<open>while True\<close> loop of \<^verbatim>\<open>main\<close>: the choice made at the menu,
  with the answers to the prompts that follow it. Only choice 8 touches the file.
\<close>

datatype lm_choice =
    Choice1 string string int string string          \<comment> \<open>add: title, author, year, genre, answer\<close>
  | Choice2 string                                   \<comment> \<open>remove: title\<close>
  | Choice3 string string string int string string   \<comment> \<open>edit: title and the five new values\<close>
  | Choice4 string string                            \<comment> \<open>search: choice, term\<close>
  | Choice5                                          \<comment> \<open>display all books\<close>
  | Choice6                                          \<comment> \<open>display statistics\<close>
  | Choice7 string                                   \<comment> \<open>sort: field\<close>
  | Choice8                                          \<comment> \<open>save and exit\<close>

fun lm_main_step :: "lm_choice \<Rightarrow> library \<times> files \<Rightarrow> library \<times> files" where
  "lm_main_step (Choice1 title author year genre answer) (library, files) =
     (fst (lm_add_book library title author year genre answer), files)"
| "lm_main_step (Choice2 title) (library, files) =
     (fst (lm_remove_book library title), files)"
| "lm_main_step (Choice3 title new_title new_author new_year new_genre answer) (library, files) =
     (fst (lm_edit_book library title new_title new_author new_year new_genre answer), files)"
| "lm_main_step (Choice4 choice term) (library, files) = (library, files)"
| "lm_main_step Choice5 (library, files) = (library, files)"
| "lm_main_step Choice6 (library, files) = (library, files)"
| "lm_main_step (Choice7 sort_by) (library, files) = (library, files)"
| "lm_main_step Choice8 (library, files) =
     (library, save_library lm_LIBRARY_FILE (library_json library) files)"

subsection \<open>The form front-end (\<^verbatim>\<open>app.py\<close>)\<close>

text \<open>
  Each function is taken with its button pressed (\<^verbatim>\<open>Add Book\<close>, \<^verbatim>\<open>Remove Book\<close>,
  \<^verbatim>\<open>Search\<close>); the values of the widgets are the arguments. The year widget yields an
  integer, on which \<^verbatim>\<open>int(year)\<close> is the identity.
\<close>

definition app_add_book ::
  "library \<Rightarrow> string \<Rightarrow> string \<Rightarrow> int \<Rightarrow> string \<Rightarrow> bool \<Rightarrow> files \<Rightarrow> library \<times> files \<times> message" where
  "app_add_book library title author year genre read_status files =
     (if title \<noteq> [] \<and> author \<noteq> [] \<and> genre \<noteq> [] then
        (let library' = library @ [\<lparr>Title = title, Author = author, Year = year,
                                     Genre = genre, Read = read_status\<rparr>]
         in (library', save_library app_LIBRARY_FILE (library_json library') files, BookAdded))
      else (library, files, FillAllFields))"

definition app_remove_book :: "library \<Rightarrow> string \<Rightarrow> files \<Rightarrow> library \<times> files \<times> message" where
  "app_remove_book library title files =
     (case find (title_matches title) library of
        Some book \<Rightarrow>
          (let library' = remove1 book library
           in (library', save_library app_LIBRARY_FILE (library_json library') files, BookRemoved))
      | None \<Rightarrow> (library, files, BookNotFound))"

text \<open>
  \<^verbatim>\<open>edit_book\<close> assigns the value of each of the five widgets to the book found, and
  saves when \<^verbatim>\<open>Save Changes\<close> is pressed (\<open>submitted\<close>).
\<close>

definition app_edit_fields :: "string \<Rightarrow> string \<Rightarrow> int \<Rightarrow> string \<Rightarrow> bool \<Rightarrow> book \<Rightarrow> book" where
  "app_edit_fields new_title new_author new_year new_genre new_read book =
     book\<lparr>Title := new_title, Author := new_author, Year := new_year, Genre := new_genre,
          Read := new_read\<rparr>"

definition app_edit_book ::
  "library \<Rightarrow> string \<Rightarrow> string \<Rightarrow> string \<Rightarrow> int \<Rightarrow> string \<Rightarrow> bool \<Rightarrow> bool \<Rightarrow> files
     \<Rightarrow> library \<times> files \<times> message" where
  "app_edit_book library title new_title new_author new_year new_genre new_read submitted files =
     (case update_first (title_matches title)
             (app_edit_fields new_title new_author new_year new_genre new_read) library of
        Some library' \<Rightarrow>
          if submitted
          then (library', save_library app_LIBRARY_FILE (library_json library') files, BookUpdated)
          else (library', files, NoMessage)
      | None \<Rightarrow> (library, files, BookNotFound))"

text \<open>\<^verbatim>\<open>search_by\<close> is the radio button's value, \<^verbatim>\<open>"Title"\<close> or \<^verbatim>\<open>"Author"\<close>.\<close>

datatype field = FTitle | FAuthor

fun get_field :: "field \<Rightarrow> book \<Rightarrow> string" where
  "get_field FTitle book = Title book"
| "get_field FAuthor book = Author book"

definition app_search_book :: "library \<Rightarrow> field \<Rightarrow> string \<Rightarrow> library" where
  "app_search_book library search_by query =
     filter (\<lambda>book. str_in (lower query) (lower (get_field search_by book))) library"

subsection \<open>Statistics (the same function in both programs)\<close>





subsection \<open>Example data\<close>

definition dune :: book where
  "dune = \<lparr>Title = ''Dune'', Author = ''Herbert'', Year = 1965, Genre = ''Sci-Fi'', Read = False\<rparr>"

definition emma :: book where
  "emma = \<lparr>Title = ''Emma'', Author = ''Austen'', Year = 1815, Genre = ''Novel'', Read = True\<rparr>"

definition dune_reprint :: book where
  "dune_reprint =
     \<lparr>Title = ''DUNE'', Author = ''Anonymous'', Year = 2000, Genre = ''Reprint'', Read = True\<rparr>"

definition no_files :: files where
  "no_files = (\<lambda>name. None)"

section \<open>Facts about the string functions\<close>

lemma startswith_iff: "startswith s q \<longleftrightarrow> (\<exists>ss. s = q @ ss)"
  by (induction s q rule: startswith.induct) auto

lemma str_in_iff: "str_in q s \<longleftrightarrow> (\<exists>ps ss. s = ps @ q @ ss)"
proof (induction s)
  case Nil
  then show ?case by auto
next
  case (Cons c cs)
  have "(\<exists>ps ss. c # cs = ps @ q @ ss) \<longleftrightarrow>
        (\<exists>ss. c # cs = q @ ss) \<or> (\<exists>ps ss. cs = ps @ q @ ss)"
  proof
    assume "\<exists>ps ss. c # cs = ps @ q @ ss"
    then obtain ps ss where e: "c # cs = ps @ q @ ss" by blast
    show "(\<exists>ss. c # cs = q @ ss) \<or> (\<exists>ps ss. cs = ps @ q @ ss)"
    proof (cases ps)
      case Nil
      with e show ?thesis by auto
    next
      case (Cons p ps')
      with e have "cs = ps' @ q @ ss" by simp
      then show ?thesis by blast
    qed
  next
    assume "(\<exists>ss. c # cs = q @ ss) \<or> (\<exists>ps ss. cs = ps @ q @ ss)"
    then show "\<exists>ps ss. c # cs = ps @ q @ ss"
    proof
      assume "\<exists>ss. c # cs = q @ ss"
      then obtain ss where "c # cs = [] @ q @ ss" by auto
      then show ?thesis by blast
    next
      assume "\<exists>ps ss. cs = ps @ q @ ss"
      then obtain ps ss where "c # cs = (c # ps) @ q @ ss" by auto
      then show ?thesis by blast
    qed
  qed
  with Cons show ?case by (simp add: startswith_iff)
qed

section \<open>Editing in the menu front-end\<close>





section \<open>Statistics\<close>




section \<open>Removing a book\<close>

lemma find_first_match:
  "\<forall>x\<in>set xs. \<not> p x \<Longrightarrow> p b \<Longrightarrow> find p (xs @ b # ys) = Some b"
  by (induction xs) auto

lemma remove1_first_match:
  "\<forall>x\<in>set xs. \<not> p x \<Longrightarrow> p b \<Longrightarrow> remove1 b (xs @ b # ys) = xs @ ys"
  by (auto simp: remove1_append)

lemma first_match_cases:
  "(\<exists>xs b ys. lib = xs @ b # ys \<and> (\<forall>x\<in>set xs. \<not> p x) \<and> p b) \<or> (\<forall>x\<in>set lib. \<not> p x)"
proof (cases "\<forall>x\<in>set lib. \<not> p x")
  case True
  then show ?thesis by blast
next
  case False
  then have "\<exists>x\<in>set lib. p x" by blast
  then obtain xs b ys where "lib = xs @ b # ys" "p b" "\<forall>x\<in>set xs. \<not> p x"
    by (auto simp: split_list_first_prop_iff)
  then show ?thesis by blast
qed

text \<open>
  C5. In both front-ends, remove deletes exactly the first book, in list order, whose
  title equals the given one up to case: the books before it (none of which matches)
  and the books after it (duplicates of the title included) stay. When no book matches,
  remove reports that the book was not found and the library is unchanged.
\<close>

theorem remove_book_first_match:
  "((\<forall>x\<in>set xs. \<not> title_matches title x) \<and> title_matches title b \<longrightarrow>
      lm_remove_book (xs @ b # ys) title = (xs @ ys, BookRemoved)
      \<and> fst (app_remove_book (xs @ b # ys) title files) = xs @ ys
      \<and> snd (snd (app_remove_book (xs @ b # ys) title files)) = BookRemoved)
   \<and> ((\<forall>x\<in>set lib. \<not> title_matches title x) \<longrightarrow>
      lm_remove_book lib title = (lib, BookNotFound)
      \<and> app_remove_book lib title files = (lib, files, BookNotFound))"
proof (intro conjI impI)
  assume h: "(\<forall>x\<in>set xs. \<not> title_matches title x) \<and> title_matches title b"
  then have f: "find (title_matches title) (xs @ b # ys) = Some b"
    by (simp add: find_first_match)
  from h have r: "remove1 b (xs @ b # ys) = xs @ ys"
    using remove1_first_match [of xs "title_matches title" b ys] by blast
  show "lm_remove_book (xs @ b # ys) title = (xs @ ys, BookRemoved)"
    by (simp add: lm_remove_book_def f r)
  show "fst (app_remove_book (xs @ b # ys) title files) = xs @ ys"
    by (simp add: app_remove_book_def f r Let_def)
  show "snd (snd (app_remove_book (xs @ b # ys) title files)) = BookRemoved"
    by (simp add: app_remove_book_def f Let_def)
next
  assume "\<forall>x\<in>set lib. \<not> title_matches title x"
  then have f: "find (title_matches title) lib = None"
    by (simp add: find_None_iff)
  show "lm_remove_book lib title = (lib, BookNotFound)"
    by (simp add: lm_remove_book_def f)
  show "app_remove_book lib title files = (lib, files, BookNotFound)"
    by (simp add: app_remove_book_def f)
qed

theorem remove_book_first_match_witness:
  "lm_remove_book ([emma] @ dune # [dune_reprint]) ''DUNE'' = ([emma] @ [dune_reprint], BookRemoved)
   \<and> fst (app_remove_book ([emma] @ dune # [dune_reprint]) ''DUNE'' no_files)
       = [emma] @ [dune_reprint]
   \<and> lm_remove_book [emma] ''DUNE'' = ([emma], BookNotFound)
   \<and> app_remove_book [emma] ''DUNE'' no_files = ([emma], no_files, BookNotFound)"
proof -
  have h1: "\<forall>x\<in>set [emma]. \<not> title_matches ''DUNE'' x"
    by code_simp
  have h2: "title_matches ''DUNE'' dune"
    by code_simp
  show ?thesis
    using remove_book_first_match [of "[emma]" "''DUNE''" dune "[dune_reprint]" no_files "[emma]"]
      h1 h2
    by blast
qed

text \<open>
  C9. In both front-ends, remove either takes one book out of the list, leaving every
  other book as it was and in the same order, or, when no title matches, leaves the
  library exactly as it was.
\<close>

theorem remove_book_frame:
  "((\<exists>x\<in>set library. title_matches title x) \<longrightarrow>
      (\<exists>xs b ys. library = xs @ b # ys \<and> title_matches title b
         \<and> fst (lm_remove_book library title) = xs @ ys
         \<and> fst (app_remove_book library title files) = xs @ ys))
   \<and> ((\<forall>x\<in>set library. \<not> title_matches title x) \<longrightarrow>
      fst (lm_remove_book library title) = library
      \<and> fst (app_remove_book library title files) = library)"
proof (intro conjI impI)
  assume "\<exists>x\<in>set library. title_matches title x"
  with first_match_cases [of library "title_matches title"]
  obtain xs b ys where l: "library = xs @ b # ys"
    and n: "\<forall>x\<in>set xs. \<not> title_matches title x" and m: "title_matches title b"
    by blast
  from n m have f: "find (title_matches title) (xs @ b # ys) = Some b"
    by (simp add: find_first_match)
  from n m have r: "remove1 b (xs @ b # ys) = xs @ ys"
    using remove1_first_match [of xs "title_matches title" b ys] by blast
  have "fst (lm_remove_book library title) = xs @ ys"
    and "fst (app_remove_book library title files) = xs @ ys"
    by (simp_all add: l lm_remove_book_def app_remove_book_def f r Let_def)
  with l m
  show "\<exists>xs b ys. library = xs @ b # ys \<and> title_matches title b
          \<and> fst (lm_remove_book library title) = xs @ ys
          \<and> fst (app_remove_book library title files) = xs @ ys"
    by blast
next
  assume "\<forall>x\<in>set library. \<not> title_matches title x"
  then have f: "find (title_matches title) library = None"
    by (simp add: find_None_iff)
  show "fst (lm_remove_book library title) = library"
    by (simp add: lm_remove_book_def f)
  show "fst (app_remove_book library title files) = library"
    by (simp add: app_remove_book_def f)
qed

theorem remove_book_frame_witness:
  "(\<exists>xs b ys. [emma, dune, dune_reprint] = xs @ b # ys \<and> title_matches ''dune'' b
       \<and> fst (lm_remove_book [emma, dune, dune_reprint] ''dune'') = xs @ ys
       \<and> fst (app_remove_book [emma, dune, dune_reprint] ''dune'' no_files) = xs @ ys)
   \<and> fst (lm_remove_book [emma] ''dune'') = [emma]
   \<and> fst (app_remove_book [emma] ''dune'' no_files) = [emma]"
proof -
  have hit: "\<exists>x\<in>set [emma, dune, dune_reprint]. title_matches ''dune'' x"
    by code_simp
  have miss: "\<forall>x\<in>set [emma]. \<not> title_matches ''dune'' x"
    by code_simp
  show ?thesis
    using remove_book_frame [of "[emma, dune, dune_reprint]" "''dune''" no_files]
      remove_book_frame [of "[emma]" "''dune''" no_files] hit miss
    by blast
qed

section \<open>Searching\<close>

text \<open>
  The form front-end's search returns exactly the books whose chosen field contains the
  query as a substring, both in lower case, in library order.
\<close>

lemma app_search_book_chosen_field:
  "app_search_book library search_by query =
     filter (\<lambda>book. \<exists>ps ss. lower (get_field search_by book) = ps @ lower query @ ss) library"
  by (simp add: app_search_book_def str_in_iff)

text \<open>
  The menu front-end's search matches on the title or the author, whatever the choice,
  and trims the term first.
\<close>

lemma lm_search_book_either_field:
  "lm_search_book library choice term =
     filter (\<lambda>book. (\<exists>ps ss. lower (Title book) = ps @ lower (strip term) @ ss)
                   \<or> (\<exists>ps ss. lower (Author book) = ps @ lower (strip term) @ ss)) library"
  by (simp add: lm_search_book_def str_in_iff Let_def)

text \<open>
  C2. Search is to return the books whose chosen field contains the query, and no book
  that has the query in its other field only. The menu front-end, asked to search by
  author (choice 2) for \<open>dune\<close>, returns the book titled Dune by Herbert, whose author
  does not contain the query; the form front-end returns nothing there.
\<close>

theorem lm_search_book_ignores_choice:
  "lm_search_book [dune, emma] ''2'' ''dune'' = [dune]
   \<and> \<not> str_in (lower ''dune'') (lower (Author dune))
   \<and> app_search_book [dune, emma] FAuthor ''dune'' = []"
  by code_simp

section \<open>Adding a book\<close>

text \<open>
  C3, as the claim states it, fails: a title of three blanks is empty after trimming,
  and the form front-end's add accepts it and appends the book.
\<close>

theorem app_add_book_blank_title:
  "strip ''   '' = []
   \<and> fst (app_add_book [] ''   '' ''Herbert'' 1965 ''Sci-Fi'' False no_files)
       = [\<lparr>Title = ''   '', Author = ''Herbert'', Year = 1965, Genre = ''Sci-Fi'', Read = False\<rparr>]
   \<and> snd (snd (app_add_book [] ''   '' ''Herbert'' 1965 ''Sci-Fi'' False no_files)) = BookAdded"
proof -
  have "strip ''   '' = []"
    by code_simp
  then show ?thesis
    by (simp add: app_add_book_def Let_def)
qed

text \<open>
  C3, amended. In the form front-end, add fails with the message to fill in all fields
  and leaves the library and the file unchanged when title, author or genre is the
  empty string; the values are not trimmed. When all three are non-empty, whatever the
  year and the read flag, add appends exactly one book made of the five values and
  saves the new library.
\<close>

theorem app_add_book_validation:
  "(title = [] \<or> author = [] \<or> genre = [] \<longrightarrow>
      app_add_book library title author year genre read_status files
        = (library, files, FillAllFields))
   \<and> (title \<noteq> [] \<and> author \<noteq> [] \<and> genre \<noteq> [] \<longrightarrow>
      app_add_book library title author year genre read_status files
        = (library @ [\<lparr>Title = title, Author = author, Year = year, Genre = genre,
                        Read = read_status\<rparr>],
           save_library app_LIBRARY_FILE
             (library_json (library @ [\<lparr>Title = title, Author = author, Year = year,
                                          Genre = genre, Read = read_status\<rparr>])) files,
           BookAdded))"
  by (auto simp: app_add_book_def Let_def)

theorem app_add_book_validation_witness:
  "app_add_book [emma] ''Dune'' [] 1965 ''Sci-Fi'' False no_files
     = ([emma], no_files, FillAllFields)
   \<and> app_add_book [emma] ''Dune'' ''Herbert'' (- 5) '' '' True no_files
     = ([emma] @ [\<lparr>Title = ''Dune'', Author = ''Herbert'', Year = - 5, Genre = '' '',
                    Read = True\<rparr>],
        save_library app_LIBRARY_FILE
          (library_json ([emma] @ [\<lparr>Title = ''Dune'', Author = ''Herbert'', Year = - 5,
                                     Genre = '' '', Read = True\<rparr>])) no_files,
        BookAdded)"
  using app_add_book_validation [of "''Dune''" "[]" "''Sci-Fi''" "[emma]" 1965 False no_files]
    app_add_book_validation [of "''Dune''" "''Herbert''" "'' ''" "[emma]" "- 5" True no_files]
  by simp

section \<open>Editing a book\<close>




section \<open>The encoder and the decoder on strings and integers\<close>

lemma hex_val_hex_digit: "d < 16 \<Longrightarrow> hex_val (hex_digit d) = Some d"
  by (auto simp: hex_val_def hex_digit_def Let_def)

lemma hex4_u_escape:
  "n < 256 \<Longrightarrow>
   hex4 (hex_digit (n div 4096 mod 16)) (hex_digit (n div 256 mod 16))
        (hex_digit (n div 16 mod 16)) (hex_digit (n mod 16)) = Some n"
  by (simp add: hex4_def hex_val_hex_digit)

lemma scanstring_u:
  "hex4 h1 h2 h3 h4 = Some n \<Longrightarrow> n < 256 \<Longrightarrow>
   scanstring (CHR 0x5C # CHR ''u'' # h1 # h2 # h3 # h4 # s) = cons_char (char_of n) (scanstring s)"
  by simp

lemma scanstring_u_escape:
  assumes "n < 256"
  shows "scanstring (u_escape n @ s) = cons_char (char_of n) (scanstring s)"
  unfolding u_escape_def append_Cons append_Nil
  by (rule scanstring_u [OF hex4_u_escape [OF assms] assms])

lemma scanstring_escape_char:
  "scanstring (escape_char c @ s) = cons_char c (scanstring s)"
  by (simp add: escape_char_def scanstring_u_escape backslash_def)

lemma cons_char_Some: "cons_char c (Some (s, rest)) = Some (c # s, rest)"
  by (simp add: cons_char_def)

lemma scanstring_escaped:
  "scanstring (concat (map escape_char s) @ CHR 0x22 # rest) = Some (s, rest)"
proof (induction s)
  case Nil
  show ?case by simp
next
  case (Cons c s)
  then show ?case
    by (simp add: scanstring_escape_char cons_char_Some del: scanstring.simps)
qed

lemma digits_value_snoc:
  "digits_value (ds @ [c]) = 10 * digits_value ds + (of_char c - 48)"
  by (simp add: digits_value_def)

lemma char_eqI_nat: "(of_char c :: nat) = of_char d \<Longrightarrow> c = d"
  by simp

lemma of_char_digit: "d < 10 \<Longrightarrow> (of_char (char_of (48 + d :: nat)) :: nat) = 48 + d"
  by simp

lemma is_digit_char_of: "d < 10 \<Longrightarrow> is_digit (char_of (48 + d :: nat))"
  by (simp add: is_digit_def)

lemma nat_repr_digits: "\<forall>c\<in>set (nat_repr n). is_digit c"
proof (induction n rule: nat_repr.induct)
  case (1 n)
  show ?case
  proof (cases "n < 10")
    case True
    then show ?thesis
      by (subst nat_repr.simps) (simp add: is_digit_char_of)
  next
    case False
    with 1 show ?thesis
      by (subst nat_repr.simps) (simp add: is_digit_char_of)
  qed
qed

lemma nat_repr_not_Nil: "nat_repr n \<noteq> []"
  by (subst nat_repr.simps) simp

lemma digits_value_nat_repr: "digits_value (nat_repr n) = n"
proof (induction n rule: nat_repr.induct)
  case (1 n)
  show ?case
  proof (cases "n < 10")
    case True
    then show ?thesis
      by (subst nat_repr.simps) (simp add: digits_value_def)
  next
    case False
    with 1 show ?thesis
      by (subst nat_repr.simps) (simp add: digits_value_snoc)
  qed
qed

lemma hd_nat_repr: "0 < n \<Longrightarrow> hd (nat_repr n) \<noteq> CHR ''0''"
proof (induction n rule: nat_repr.induct)
  case (1 n)
  show ?case
  proof (cases "n < 10")
    case True
    with 1(2) have "char_of (48 + n) \<noteq> CHR ''0''"
      using of_char_digit [of n] by (auto simp del: of_char_of)
    with True show ?thesis
      by (subst nat_repr.simps) simp
  next
    case False
    then have "0 < n div 10" by simp
    with 1(1) False have "hd (nat_repr (n div 10)) \<noteq> CHR ''0''" by simp
    with False show ?thesis
      by (subst nat_repr.simps) (simp add: nat_repr_not_Nil)
  qed
qed

lemma nat_repr_0: "nat_repr 0 = ''0''"
  by (subst nat_repr.simps) (simp, rule char_eqI_nat, simp)

lemma takeWhile_delimited: "delimited rest \<Longrightarrow> takeWhile is_digit rest = []"
  by (cases rest) (simp_all add: delimited_def)

lemma dropWhile_delimited: "delimited rest \<Longrightarrow> dropWhile is_digit rest = rest"
  by (cases rest) (simp_all add: delimited_def)

lemma match_integer_nat_repr:
  assumes "delimited rest"
  shows "match_integer (nat_repr n @ rest) = Some (nat_repr n, rest)"
proof (cases "n = 0")
  case True
  then show ?thesis
    by (simp add: nat_repr_0 match_integer_def)
next
  case False
  obtain d ds where e: "nat_repr n = d # ds"
    using nat_repr_not_Nil [of n] by (cases "nat_repr n") auto
  with nat_repr_digits [of n] have dg: "is_digit d" "\<forall>x\<in>set ds. is_digit x"
    by auto
  from False hd_nat_repr [of n] e have "d \<noteq> CHR ''0''"
    by simp
  with dg assms show ?thesis
    by (simp add: e match_integer_def takeWhile_delimited dropWhile_delimited)
qed

lemma match_frac_none: "delimited rest \<Longrightarrow> match_frac rest = ([], rest)"
  by (auto simp: match_frac_def delimited_def split: list.splits)

lemma match_exp_none: "delimited rest \<Longrightarrow> match_exp rest = ([], rest)"
  by (auto simp: match_exp_def delimited_def split: list.splits)

lemma nat_repr_not_minus: "hd (nat_repr n) \<noteq> CHR ''-''"
proof -
  obtain d ds where e: "nat_repr n = d # ds"
    using nat_repr_not_Nil [of n] by (cases "nat_repr n") auto
  with nat_repr_digits [of n] have "is_digit d" by simp
  then have "d \<noteq> CHR ''-''" by (auto simp: is_digit_def)
  with e show ?thesis by simp
qed

lemma match_number_int_repr:
  assumes "delimited rest"
  shows "match_number (int_repr i @ rest) = Some (JInt i, rest)"
proof (cases "i < 0")
  case True
  then show ?thesis
    using assms
    by (simp add: match_number_def int_repr_def match_integer_nat_repr match_frac_none
        match_exp_none digits_value_nat_repr)
next
  case False
  obtain d ds where e: "nat_repr (nat i) = d # ds"
    using nat_repr_not_Nil [of "nat i"] by (cases "nat_repr (nat i)") auto
  with nat_repr_not_minus [of "nat i"] have m: "d \<noteq> CHR ''-''" by simp
  have "match_integer (d # ds @ rest) = Some (d # ds, rest)"
    using match_integer_nat_repr [OF assms, of "nat i"] by (simp add: e)
  moreover have "digits_value (d # ds) = nat i"
    using digits_value_nat_repr [of "nat i"] by (simp add: e)
  ultimately show ?thesis
    using False assms m
    by (simp add: match_number_def int_repr_def e match_frac_none match_exp_none)
qed

section \<open>The decoder on an encoded value\<close>

lemma skip_ws_no_ws: "\<not> is_ws c \<Longrightarrow> skip_ws (c # s) = c # s"
  by (simp add: skip_ws_def)

lemma skip_ws_blank: "skip_ws (CHR '' '' # s) = skip_ws s"
  by (simp add: skip_ws_def is_ws_def)

lemma skip_ws_newline_indent: "skip_ws (newline_indent level @ s) = skip_ws s"
proof -
  have "dropWhile is_ws (replicate k CHR '' '' @ s) = dropWhile is_ws s" for k
    by (induction k) (simp_all add: is_ws_def)
  then show ?thesis
    by (simp add: skip_ws_def newline_indent_def is_ws_def)
qed

lemma is_ws_simps:
  "\<not> is_ws (CHR 0x22)" "\<not> is_ws CHR '':''" "\<not> is_ws CHR '',''" "\<not> is_ws CHR ''}''"
  "\<not> is_ws CHR '']''" "\<not> is_ws CHR ''{''" "\<not> is_ws CHR ''[''" "\<not> is_ws CHR ''t''"
  "\<not> is_ws CHR ''f''" "\<not> is_ws CHR ''-''"
  by (simp_all add: is_ws_def)

lemma scan_once_str:
  "scan_once (Suc n) (encode_basestring_ascii s @ rest) = Some (JStr s, rest)"
  by (simp add: encode_basestring_ascii_def scanstring_escaped del: scanstring.simps)

lemma int_repr_Cons: "\<exists>d ds. int_repr i = d # ds \<and> (d = CHR ''-'' \<or> is_digit d)"
proof (cases "i < 0")
  case True
  then show ?thesis by (simp add: int_repr_def)
next
  case False
  obtain d ds where e: "nat_repr (nat i) = d # ds"
    using nat_repr_not_Nil [of "nat i"] by (cases "nat_repr (nat i)") auto
  with nat_repr_digits [of "nat i"] have "is_digit d" by simp
  with False e show ?thesis by (simp add: int_repr_def)
qed

lemma scan_once_int:
  assumes "delimited rest"
  shows "scan_once (Suc n) (int_repr i @ rest) = Some (JInt i, rest)"
proof -
  obtain d ds where e: "int_repr i = d # ds" and d: "d = CHR ''-'' \<or> is_digit d"
    using int_repr_Cons [of i] by blast
  from d have nd: "d \<noteq> CHR 0x22" "d \<noteq> CHR ''{''" "d \<noteq> CHR ''[''" "d \<noteq> CHR ''n''"
    "d \<noteq> CHR ''t''" "d \<noteq> CHR ''f''"
    by (auto simp: is_digit_def)
  have m: "match_number (d # ds @ rest) = Some (JInt i, rest)"
    using match_number_int_repr [OF assms, of i] by (simp add: e)
  show ?thesis
    using nd by (simp add: e m)
qed

text \<open>The text of an exact value starts with a character that is no white space.\<close>

lemma encode_first:
  assumes "exact_json v"
  shows "\<exists>c cs. encode level v = c # cs \<and> \<not> is_ws c \<and> c \<noteq> CHR '']''"
proof (cases v)
  case (JInt i)
  obtain d ds where "int_repr i = d # ds" "d = CHR ''-'' \<or> is_digit d"
    using int_repr_Cons [of i] by blast
  then have "encode level v = d # ds \<and> \<not> is_ws d \<and> d \<noteq> CHR '']''"
    using JInt by (auto simp: is_ws_def is_digit_def)
  then show ?thesis by blast
next
  case (JFloat x)
  with assms show ?thesis by simp
qed (simp_all add: is_ws_def encode_basestring_ascii_def)

lemma delimited_simps:
  "delimited (CHR '','' # s)" "delimited (newline_indent level @ s)" "delimited []"
  by (simp_all add: delimited_def newline_indent_def is_digit_def)

lemma join_Cons:
  "join sep (x # xs) = x @ (if xs = [] then [] else sep @ join sep xs)"
  by (cases xs) simp_all

text \<open>The loop of \<^verbatim>\<open>JSONArray\<close> on the encoded items of a list.\<close>

lemma array_loop_values:
  assumes "\<And>x rest n. x \<in> set xs \<Longrightarrow> delimited rest \<Longrightarrow> json_size x \<le> n \<Longrightarrow>
             scan_once n (encode l x @ rest) = Some (x, rest)"
    and "list_all exact_json xs" and "xs \<noteq> []"
    and "sum_list (map (\<lambda>v. Suc (json_size v)) xs) \<le> n"
  shows "array_loop n acc
           (join (CHR '','' # newline_indent l) (map (encode l) xs)
              @ newline_indent l' @ CHR '']'' # rest)
         = Some (JArray (acc @ xs), rest)"
  using assms
proof (induction xs arbitrary: acc n)
  case Nil
  then show ?case by simp
next
  case (Cons x xs)
  note IH = Cons.IH and prems = Cons.prems
  from prems(4) obtain m where n: "n = Suc m" and m: "json_size x \<le> m"
    and s: "sum_list (map (\<lambda>v. Suc (json_size v)) xs) \<le> m"
    by (cases n) auto
  show ?case
  proof (cases xs)
    case Nil
    have "scan_once m (encode l x @ newline_indent l' @ CHR '']'' # rest)
            = Some (x, newline_indent l' @ CHR '']'' # rest)"
      by (rule prems(1)) (simp_all add: delimited_simps m)
    then show ?thesis
      by (simp add: Nil n skip_ws_newline_indent skip_ws_no_ws is_ws_simps)
  next
    case (Cons y ys)
    let ?tail = "join (CHR '','' # newline_indent l) (map (encode l) (y # ys))
                   @ newline_indent l' @ CHR '']'' # rest"
    have p: "scan_once m (encode l x @ CHR '','' # newline_indent l @ ?tail)
            = Some (x, CHR '','' # newline_indent l @ ?tail)"
      by (rule prems(1)) (simp_all add: delimited_simps m)
    from prems(2) Cons have "exact_json y" by simp
    then obtain c cs where c: "encode l y = c # cs" "\<not> is_ws c"
      using encode_first by blast
    have k: "skip_ws (newline_indent l @ ?tail) = ?tail"
      by (simp add: skip_ws_newline_indent join_Cons c skip_ws_no_ws)
    have "array_loop m (acc @ [x]) ?tail = Some (JArray ((acc @ [x]) @ xs), rest)"
      unfolding Cons [symmetric]
    proof (rule IH)
      show "scan_once n (encode l z @ rest) = Some (z, rest)"
        if "z \<in> set xs" "delimited rest" "json_size z \<le> n" for z rest n
        using that prems(1) by simp
      show "list_all exact_json xs"
        using prems(2) by simp
      show "xs \<noteq> []"
        using Cons by simp
      show "sum_list (map (\<lambda>v. Suc (json_size v)) xs) \<le> m"
        by (rule s)
    qed
    then show ?thesis
      using p k
      by (simp add: Cons n join_Cons skip_ws_no_ws is_ws_simps del: join.simps)
  qed
qed

text \<open>The loop of \<^verbatim>\<open>JSONObject\<close> on the encoded members of an object.\<close>

lemma object_loop_members:
  assumes "\<And>m rest n. m \<in> set ms \<Longrightarrow> delimited rest \<Longrightarrow> json_size (snd m) \<le> n \<Longrightarrow>
             scan_once n (encode l (snd m) @ rest) = Some (snd m, rest)"
    and "list_all (\<lambda>m. exact_json (snd m)) ms" and "ms \<noteq> []"
    and "sum_list (map (\<lambda>m. Suc (json_size (snd m))) ms) \<le> n"
  shows "object_loop n pairs
           (tl (join (CHR '','' # newline_indent l)
                  (map (\<lambda>m. encode_basestring_ascii (fst m) @ CHR '':'' # CHR '' '' # encode l (snd m)) ms))
              @ newline_indent l' @ CHR ''}'' # rest)
         = Some (JObject (dict (pairs @ ms)), rest)"
  using assms
proof (induction ms arbitrary: pairs n)
  case Nil
  then show ?case by simp
next
  case (Cons m ms)
  note IH = Cons.IH and prems = Cons.prems
  let ?f = "\<lambda>m. encode_basestring_ascii (fst m) @ CHR '':'' # CHR '' '' # encode l (snd m)"
  from prems(4) obtain k where n: "n = Suc k" and k: "json_size (snd m) \<le> k"
    and s: "sum_list (map (\<lambda>m. Suc (json_size (snd m))) ms) \<le> k"
    by (cases n) auto
  from prems(2) have "exact_json (snd m)" by simp
  then obtain c cs where c: "encode l (snd m) = c # cs" "\<not> is_ws c"
    using encode_first by blast
  have v: "skip_ws (CHR '' '' # encode l (snd m) @ t) = encode l (snd m) @ t" for t
    by (simp add: skip_ws_blank c skip_ws_no_ws)
  have pm: "pairs @ [(fst m, snd m)] = pairs @ [m]"
    by simp
  show ?case
  proof (cases ms)
    case Nil
    have "scan_once k (encode l (snd m) @ newline_indent l' @ CHR ''}'' # rest)
            = Some (snd m, newline_indent l' @ CHR ''}'' # rest)"
      by (rule prems(1)) (simp_all add: delimited_simps k)
    then show ?thesis
      by (simp add: Nil n encode_basestring_ascii_def scanstring_escaped v pm
          skip_ws_newline_indent skip_ws_no_ws is_ws_simps
          del: scanstring.simps)
  next
    case (Cons m' ms')
    let ?tail = "tl (join (CHR '','' # newline_indent l) (map ?f (m' # ms')))
                   @ newline_indent l' @ CHR ''}'' # rest"
    have j: "join (CHR '','' # newline_indent l) (map ?f (m' # ms'))
               @ newline_indent l' @ CHR ''}'' # rest = CHR 0x22 # ?tail"
      by (simp add: join_Cons encode_basestring_ascii_def del: join.simps)
    have p: "scan_once k (encode l (snd m) @ CHR '','' # newline_indent l @ CHR 0x22 # ?tail)
            = Some (snd m, CHR '','' # newline_indent l @ CHR 0x22 # ?tail)"
      by (rule prems(1)) (simp_all add: delimited_simps k)
    have "object_loop k (pairs @ [m]) ?tail = Some (JObject (dict ((pairs @ [m]) @ ms)), rest)"
      unfolding Cons [symmetric]
    proof (rule IH)
      show "scan_once n (encode l (snd z) @ rest) = Some (snd z, rest)"
        if "z \<in> set ms" "delimited rest" "json_size (snd z) \<le> n" for z rest n
        using that prems(1) by simp
      show "list_all (\<lambda>m. exact_json (snd m)) ms"
        using prems(2) by simp
      show "ms \<noteq> []"
        using Cons by simp
      show "sum_list (map (\<lambda>m. Suc (json_size (snd m))) ms) \<le> k"
        by (rule s)
    qed
    moreover have "tl (join (CHR '','' # newline_indent l) (map ?f (m # ms)))
                     @ newline_indent l' @ CHR ''}'' # rest
                   = concat (map escape_char (fst m)) @ CHR 0x22 # CHR '':'' # CHR '' ''
                       # encode l (snd m) @ CHR '','' # newline_indent l @ CHR 0x22 # ?tail"
      using j by (simp add: Cons join_Cons encode_basestring_ascii_def del: join.simps)
    ultimately show ?thesis
      using p
      by (simp add: n scanstring_escaped v pm skip_ws_newline_indent skip_ws_no_ws is_ws_simps
          del: scanstring.simps join.simps)
  qed
qed

lemma dict_set_fresh: "k \<notin> fst ` set ps \<Longrightarrow> dict_set k v ps = ps @ [(k, v)]"
  by (induction ps) auto

lemma dict_distinct: "distinct (map fst ms) \<Longrightarrow> dict ms = ms"
proof (induction ms rule: rev_induct)
  case Nil
  show ?case by (simp add: dict_def)
next
  case (snoc m ms)
  then have "dict ms = ms" and "fst m \<notin> fst ` set ms"
    by auto
  then show ?case
    using dict_set_fresh [of "fst m" ms "snd m"] by (simp add: dict_def)
qed

text \<open>
  The decoder reads the text of an exact value back to the value, and stops where the
  text ends, whatever follows.
\<close>

lemma scan_once_encode:
  "exact_json v \<Longrightarrow> delimited rest \<Longrightarrow> json_size v \<le> n \<Longrightarrow>
     scan_once n (encode l v @ rest) = Some (v, rest)"
proof (induction v arbitrary: l rest n)
  case JNull
  then obtain k where "n = Suc k" by (cases n) auto
  then show ?case by simp
next
  case (JBool b)
  then obtain k where "n = Suc k" by (cases n) auto
  then show ?case by simp
next
  case (JInt i)
  then obtain k where "n = Suc k" by (cases n) auto
  with JInt show ?case by (simp add: scan_once_int del: scan_once.simps)
next
  case (JFloat x)
  then show ?case by simp
next
  case (JStr s)
  then obtain k where "n = Suc k" by (cases n) auto
  then show ?case by (simp add: scan_once_str del: scan_once.simps)
next
  case (JArray xs)
  from JArray.prems(3) obtain k where n: "n = Suc k"
    and k: "sum_list (map (\<lambda>v. Suc (json_size v)) xs) \<le> k"
    by (cases n) auto
  show ?case
  proof (cases "xs = []")
    case True
    then show ?thesis
      by (simp add: n skip_ws_no_ws is_ws_simps)
  next
    case False
    then obtain y ys where xs: "xs = y # ys" by (cases xs) auto
    with JArray.prems(1) have "exact_json y" by simp
    then obtain c cs where c: "encode (Suc l) y = c # cs" "\<not> is_ws c" "c \<noteq> CHR '']''"
      using encode_first by blast
    let ?items = "join (CHR '','' # newline_indent (Suc l)) (map (encode (Suc l)) xs)
                    @ newline_indent l @ CHR '']'' # rest"
    obtain t where h: "?items = c # t"
      by (simp add: xs join_Cons c del: join.simps)
    have "array_loop k [] ?items = Some (JArray ([] @ xs), rest)"
    proof (rule array_loop_values)
      show "scan_once n (encode (Suc l) x @ rest) = Some (x, rest)"
        if "x \<in> set xs" "delimited rest" "json_size x \<le> n" for x rest n
        using that JArray.prems(1) by (intro JArray.IH) (simp_all add: list_all_iff)
      show "list_all exact_json xs"
        using JArray.prems(1) by simp
      show "xs \<noteq> []"
        by (rule False)
      show "sum_list (map (\<lambda>v. Suc (json_size v)) xs) \<le> k"
        by (rule k)
    qed
    then have a: "array_loop k [] (c # t) = Some (JArray xs, rest)"
      by (simp add: h)
    have "skip_ws (c # t) = c # t"
      by (simp add: skip_ws_no_ws c(2))
    then have "skip_ws (newline_indent (Suc l) @ ?items) = c # t"
      by (simp add: skip_ws_newline_indent h)
    with a show ?thesis
      using False c(3) by (simp add: n del: join.simps)
  qed
next
  case (JObject ms)
  from JObject.prems(3) obtain k where n: "n = Suc k"
    and k: "sum_list (map (\<lambda>m. Suc (json_size (snd m))) ms) \<le> k"
    by (cases n) auto
  from JObject.prems(1) have d: "dict ms = ms"
    by (simp add: dict_distinct)
  show ?case
  proof (cases "ms = []")
    case True
    then show ?thesis
      by (simp add: n skip_ws_no_ws is_ws_simps)
  next
    case False
    then obtain y ys where ms: "ms = y # ys" by (cases ms) auto
    let ?f = "\<lambda>m. encode_basestring_ascii (fst m) @ CHR '':'' # CHR '' '' # encode (Suc l) (snd m)"
    let ?members = "join (CHR '','' # newline_indent (Suc l)) (map ?f ms)"
    let ?tail = "tl ?members @ newline_indent l @ CHR ''}'' # rest"
    obtain t where h: "?members = CHR 0x22 # t"
      by (simp add: ms join_Cons encode_basestring_ascii_def del: join.simps)
    have "object_loop k [] ?tail = Some (JObject (dict ([] @ ms)), rest)"
    proof (rule object_loop_members)
      show "scan_once n (encode (Suc l) (snd m) @ rest) = Some (snd m, rest)"
        if "m \<in> set ms" "delimited rest" "json_size (snd m) \<le> n" for m rest n
      proof (rule JObject.IH)
        show "m \<in> set ms" by (rule that(1))
        show "snd m \<in> Basic_BNFs.snds m" by (cases m) simp
        show "exact_json (snd m)"
          using that(1) JObject.prems(1) by (simp add: list_all_iff)
        show "delimited rest" by (rule that(2))
        show "json_size (snd m) \<le> n" by (rule that(3))
      qed
      show "list_all (\<lambda>m. exact_json (snd m)) ms"
        using JObject.prems(1) by simp
      show "ms \<noteq> []"
        by (rule False)
      show "sum_list (map (\<lambda>m. Suc (json_size (snd m))) ms) \<le> k"
        by (rule k)
    qed
    then have a: "object_loop k [] (t @ newline_indent l @ CHR ''}'' # rest)
                    = Some (JObject ms, rest)"
      by (simp add: h d)
    have "skip_ws (newline_indent (Suc l) @ ?members @ newline_indent l @ CHR ''}'' # rest)
            = CHR 0x22 # t @ newline_indent l @ CHR ''}'' # rest"
      by (simp add: skip_ws_newline_indent h skip_ws_no_ws is_ws_simps)
    with a show ?thesis
      using False by (simp add: n del: join.simps)
  qed
qed

text \<open>The counter that \<open>json_loads\<close> starts with is enough for an encoded value.\<close>

lemma length_join:
  "sep \<noteq> [] \<Longrightarrow> sum_list (map (\<lambda>y. Suc (length y)) ys) \<le> Suc (length (join sep ys))"
proof (induction ys)
  case Nil
  show ?case by simp
next
  case (Cons y ys)
  then show ?case
    by (cases "sep") (auto simp: join_Cons simp del: join.simps)
qed

lemma sum_list_le_join:
  assumes "\<And>x. x \<in> set xs \<Longrightarrow> f x \<le> length (g x)" and "sep \<noteq> []"
  shows "sum_list (map (\<lambda>x. Suc (f x)) xs) \<le> Suc (length (join sep (map g xs)))"
proof -
  have "sum_list (map (\<lambda>x. Suc (f x)) xs) \<le> sum_list (map (\<lambda>x. Suc (length (g x))) xs)"
    using assms(1) by (intro sum_list_mono) simp
  also have "\<dots> = sum_list (map (\<lambda>y. Suc (length y)) (map g xs))"
    by (simp add: comp_def)
  also have "\<dots> \<le> Suc (length (join sep (map g xs)))"
    by (rule length_join [OF assms(2)])
  finally show ?thesis .
qed

lemma json_size_le_length: "exact_json v \<Longrightarrow> json_size v \<le> length (encode l v)"
proof (induction v arbitrary: l)
  case (JInt i)
  obtain d ds where "int_repr i = d # ds"
    using int_repr_Cons [of i] by blast
  then show ?case by simp
next
  case (JFloat x)
  then show ?case by simp
next
  case (JStr s)
  show ?case by (simp add: encode_basestring_ascii_def)
next
  case (JArray xs)
  have "sum_list (map (\<lambda>x. Suc (json_size x)) xs)
          \<le> Suc (length (join (CHR '','' # newline_indent (Suc l)) (map (encode (Suc l)) xs)))"
  proof (rule sum_list_le_join)
    show "json_size x \<le> length (encode (Suc l) x)" if "x \<in> set xs" for x
      using that JArray.prems by (intro JArray.IH) (simp_all add: list_all_iff)
  qed simp
  then show ?case
    by (simp add: newline_indent_def del: join.simps)
next
  case (JObject ms)
  let ?g = "\<lambda>m. encode_basestring_ascii (fst m) @ CHR '':'' # CHR '' '' # encode (Suc l) (snd m)"
  have "sum_list (map (\<lambda>m. Suc (json_size (snd m))) ms)
          \<le> Suc (length (join (CHR '','' # newline_indent (Suc l)) (map ?g ms)))"
  proof (rule sum_list_le_join)
    show "json_size (snd m) \<le> length (?g m)" if "m \<in> set ms" for m
    proof -
      have "json_size (snd m) \<le> length (encode (Suc l) (snd m))"
      proof (rule JObject.IH)
        show "m \<in> set ms" by (rule that)
        show "snd m \<in> Basic_BNFs.snds m" by (cases m) simp
        show "exact_json (snd m)"
          using that JObject.prems by (simp add: list_all_iff)
      qed
      then show ?thesis by simp
    qed
  qed simp
  then show ?case
    by (simp add: newline_indent_def del: join.simps)
qed simp_all

text \<open>Decoding the text of an exact value gives the value.\<close>

lemma json_loads_dumps: "exact_json v \<Longrightarrow> json_loads (json_dumps v) = Some v"
proof -
  assume e: "exact_json v"
  then obtain c cs where c: "encode 0 v = c # cs" "\<not> is_ws c"
    using encode_first by blast
  have "json_size v \<le> 2 * length (encode 0 v) + 1"
    using json_size_le_length [OF e, of 0] by simp
  then have "scan_once (2 * length (encode 0 v) + 1) (encode 0 v @ []) = Some (v, [])"
    using e by (intro scan_once_encode) (simp_all add: delimited_simps)
  moreover have "skip_ws (encode 0 v) = encode 0 v"
    by (simp add: c skip_ws_no_ws)
  ultimately show ?thesis
    by (simp add: json_loads_def json_dumps_def skip_ws_def)
qed

lemma exact_library_json: "exact_json (library_json library)"
  by (simp add: library_json_def book_dict_def list_all_iff)



section \<open>The counter of the decoder never runs out\<close>

text \<open>
  Every successful call of the decoder consumes at least one character, so the calls
  nest no deeper than the text is long: from \<open>2 * length s + 1\<close> on, the result of
  \<open>scan_once\<close> on \<open>s\<close> does not depend on the counter, and \<open>None\<close> from
  \<open>json_loads\<close> is a \<^verbatim>\<open>JSONDecodeError\<close>.
\<close>

lemma length_skip_ws: "length (skip_ws s) \<le> length s"
  by (simp add: skip_ws_def length_dropWhile_le)

lemma cons_char_SomeD:
  "cons_char c r = Some (str, rest) \<Longrightarrow> \<exists>str'. r = Some (str', rest)"
  by (cases r) (auto simp: cons_char_def)

lemma scanstring_shorter: "scanstring s = Some (str, rest) \<Longrightarrow> length rest < length s"
proof (induction s arbitrary: str rest rule: scanstring.induct)
  case 1
  then show ?case by simp
next
  case (2 c cs)
  show ?case
  proof (cases "c = CHR 0x22")
    case True
    with "2.prems" show ?thesis by simp
  next
    case quote: False
    show ?thesis
    proof (cases "c = CHR 0x5C")
      case False
      with quote "2.prems" obtain str' where "scanstring cs = Some (str', rest)"
        by (auto split: if_splits dest: cons_char_SomeD)
      with "2.IH"(3) quote False "2.prems" have "length rest < length cs"
        by (auto split: if_splits)
      then show ?thesis by simp
    next
      case True
      with quote "2.prems" obtain e r where cs: "cs = e # r"
        by (cases cs) auto
      show ?thesis
      proof (cases "e = CHR ''u''")
        case False
        with quote True cs "2.prems" obtain ch str' where "backslash e = Some ch"
          "scanstring r = Some (str', rest)"
          by (auto split: option.splits dest: cons_char_SomeD)
        with "2.IH"(2) quote True cs False have "length rest < length r"
          by auto
        with cs show ?thesis by simp
      next
        case u: True
        with quote True cs "2.prems" obtain h1 h2 h3 h4 r' where r: "r = h1 # h2 # h3 # h4 # r'"
          by (auto split: list.splits)
        with quote True cs u "2.prems" obtain n str' where "hex4 h1 h2 h3 h4 = Some n" "n < 256"
          "scanstring r' = Some (str', rest)"
          by (auto split: option.splits if_splits dest: cons_char_SomeD)
        with "2.IH"(1) quote True cs u r have "length rest < length r'"
          by auto
        with cs r show ?thesis by simp
      qed
    qed
  qed
qed

lemma match_number_shorter: "match_number s = Some (v, rest) \<Longrightarrow> length rest < length s"
proof -
  have i: "length s2 < length s1" if "match_integer s1 = Some (ds, s2)" for s1 s2 ds
    using that length_dropWhile_le [of is_digit "tl s1"]
    by (cases s1) (auto simp: match_integer_def split: if_splits)
  have f: "length (snd (match_frac t)) \<le> length t" for t
  proof (cases t)
    case Nil
    then show ?thesis by (simp add: match_frac_def)
  next
    case (Cons c t')
    then show ?thesis
      using length_dropWhile_le [of is_digit "tl t'"]
      by (cases t') (auto simp: match_frac_def)
  qed
  have e: "length (snd (match_exp t)) \<le> length t" for t
  proof (cases t)
    case Nil
    then show ?thesis by (simp add: match_exp_def)
  next
    case (Cons c cs)
    have "length (dropWhile is_digit (drop k cs)) \<le> length cs" for k
      using length_dropWhile_le [of is_digit "drop k cs"] by simp
    then show ?thesis
      by (simp add: Cons match_exp_def Let_def le_SucI)
  qed
  assume a: "match_number s = Some (v, rest)"
  define s1 where "s1 = (if (case s of [] \<Rightarrow> False | c # cs \<Rightarrow> c = CHR ''-'') then tl s else s)"
  have l1: "length s1 \<le> length s"
    by (simp add: s1_def)
  from a obtain ds s2 where m: "match_integer s1 = Some (ds, s2)"
    by (auto simp: match_number_def s1_def Let_def split: option.splits)
  with a have "rest = snd (match_exp (snd (match_frac s2)))"
    by (auto simp: match_number_def s1_def Let_def split: prod.splits if_splits)
  then have "length rest \<le> length s2"
    using e [of "snd (match_frac s2)"] f [of s2] by simp
  with i [OF m] l1 show ?thesis by simp
qed

lemma skip_ws_ConsD: "skip_ws s = d # r \<Longrightarrow> length r < length s"
  using length_skip_ws [of s] by simp

lemma array_loop_SomeD:
  "array_loop (Suc n) acc s = Some (v, rest) \<Longrightarrow>
     \<exists>x r1 d r2. scan_once n s = Some (x, r1) \<and> skip_ws r1 = d # r2
       \<and> (rest = r2 \<or> array_loop n (acc @ [x]) (skip_ws r2) = Some (v, rest))"
  by (auto split: option.splits list.splits if_splits)

lemma object_loop_SomeD:
  "object_loop (Suc n) pairs s = Some (v, rest) \<Longrightarrow>
     \<exists>key r0 colon r1 x r2 d r3.
       scanstring s = Some (key, r0) \<and> skip_ws r0 = colon # r1
       \<and> scan_once n (skip_ws r1) = Some (x, r2) \<and> skip_ws r2 = d # r3
       \<and> (rest = r3
           \<or> (\<exists>q r4. skip_ws r3 = q # r4
                \<and> object_loop n (pairs @ [(key, x)]) r4 = Some (v, rest)))"
  by (auto split: option.splits list.splits if_splits)

lemma scan_once_SomeD:
  "scan_once (Suc n) s = Some (v, rest) \<Longrightarrow>
     \<exists>c cs. s = c # cs
       \<and> ((\<exists>str. scanstring cs = Some (str, rest))
           \<or> (\<exists>d r. skip_ws cs = d # r
                \<and> (rest = r \<or> object_loop n [] r = Some (v, rest)
                     \<or> array_loop n [] (d # r) = Some (v, rest)))
           \<or> length rest < length s
           \<or> match_number s = Some (v, rest))"
proof -
  assume a: "scan_once (Suc n) s = Some (v, rest)"
  then obtain c cs where s: "s = c # cs"
    by (cases s) auto
  consider (str) "c = CHR 0x22" | (obj) "c \<noteq> CHR 0x22" "c = CHR ''{''"
    | (arr) "c \<noteq> CHR 0x22" "c \<noteq> CHR ''{''" "c = CHR ''[''"
    | (other) "c \<noteq> CHR 0x22" "c \<noteq> CHR ''{''" "c \<noteq> CHR ''[''"
    by blast
  then show ?thesis
  proof cases
    case str
    with a s have "\<exists>str. scanstring cs = Some (str, rest)"
      by (auto split: option.splits)
    with s show ?thesis by blast
  next
    case obj
    with a s have "\<exists>d r. skip_ws cs = d # r \<and> (rest = r \<or> object_loop n [] r = Some (v, rest))"
      by (auto split: list.splits if_splits)
    with s show ?thesis by blast
  next
    case arr
    with a s have "\<exists>d r. skip_ws cs = d # r
        \<and> (rest = r \<or> array_loop n [] (d # r) = Some (v, rest))"
      by (auto split: list.splits if_splits)
    with s show ?thesis by blast
  next
    case other
    with a s have "length rest < length s \<or> match_number s = Some (v, rest)"
      by (auto simp del: startswith.simps split: if_splits option.splits)
    with s show ?thesis by blast
  qed
qed

lemma scan_shorter:
  "(scan_once n s = Some (v, rest) \<longrightarrow> length rest < length s)
   \<and> (array_loop n acc s = Some (v, rest) \<longrightarrow> length rest < length s)
   \<and> (object_loop n pairs s = Some (v, rest) \<longrightarrow> length rest < length s)"
proof (induction n arbitrary: s v rest acc pairs)
  case 0
  show ?case by simp
next
  case (Suc n)
  have v: "length rest < length s" if "scan_once n s = Some (v, rest)" for s v rest
    using Suc that by blast
  have a: "length rest < length s" if "array_loop n acc s = Some (v, rest)" for s v rest acc
    using Suc that by blast
  have b: "length rest < length s" if "object_loop n pairs s = Some (v, rest)" for s v rest pairs
    using Suc that by blast
  have "length rest < length s" if "scan_once (Suc n) s = Some (v, rest)"
  proof -
    from scan_once_SomeD [OF that] obtain c cs where s: "s = c # cs"
      and d: "(\<exists>str. scanstring cs = Some (str, rest))
           \<or> (\<exists>d r. skip_ws cs = d # r
                \<and> (rest = r \<or> object_loop n [] r = Some (v, rest)
                     \<or> array_loop n [] (d # r) = Some (v, rest)))
           \<or> length rest < length s
           \<or> match_number s = Some (v, rest)"
      by blast
    from d show ?thesis
    proof (elim disjE exE conjE)
      fix str assume "scanstring cs = Some (str, rest)"
      then show ?thesis using scanstring_shorter s by fastforce
    next
      fix d r assume "skip_ws cs = d # r" "rest = r"
      then show ?thesis using skip_ws_ConsD s by fastforce
    next
      fix d r assume "skip_ws cs = d # r" "object_loop n [] r = Some (v, rest)"
      then show ?thesis using skip_ws_ConsD [of cs d r] b [of "[]" r v rest] s by simp
    next
      fix d r assume "skip_ws cs = d # r" "array_loop n [] (d # r) = Some (v, rest)"
      then show ?thesis using length_skip_ws [of cs] a [of "[]" "d # r" v rest] s by simp
    next
      assume "length rest < length s"
      then show ?thesis .
    next
      assume "match_number s = Some (v, rest)"
      then show ?thesis by (rule match_number_shorter)
    qed
  qed
  moreover have "length rest < length s" if "array_loop (Suc n) acc s = Some (v, rest)"
  proof -
    from array_loop_SomeD [OF that] obtain x r1 d r2 where
      "scan_once n s = Some (x, r1)" "skip_ws r1 = d # r2"
      "rest = r2 \<or> array_loop n (acc @ [x]) (skip_ws r2) = Some (v, rest)"
      by blast
    then show ?thesis
      using v [of s x r1] skip_ws_ConsD [of r1 d r2] length_skip_ws [of r2]
        a [of "acc @ [x]" "skip_ws r2" v rest]
      by auto
  qed
  moreover have "length rest < length s" if "object_loop (Suc n) pairs s = Some (v, rest)"
  proof -
    from object_loop_SomeD [OF that] obtain key r0 colon r1 x r2 d r3 where
      h: "scanstring s = Some (key, r0)" "skip_ws r0 = colon # r1"
      "scan_once n (skip_ws r1) = Some (x, r2)" "skip_ws r2 = d # r3"
      "rest = r3 \<or> (\<exists>q r4. skip_ws r3 = q # r4
          \<and> object_loop n (pairs @ [(key, x)]) r4 = Some (v, rest))"
      by blast
    have "length r3 < length s"
      using h(1-4) scanstring_shorter [of s key r0] skip_ws_ConsD [of r0 colon r1]
        length_skip_ws [of r1] v [of "skip_ws r1" x r2] skip_ws_ConsD [of r2 d r3]
      by simp
    moreover have "length rest < length r3"
      if "skip_ws r3 = q # r4" "object_loop n (pairs @ [(key, x)]) r4 = Some (v, rest)" for q r4
      using that skip_ws_ConsD [of r3 q r4] b [of "pairs @ [(key, x)]" r4 v rest] by simp
    ultimately show ?thesis
      using h(5) by auto
  qed
  ultimately show ?case by blast
qed

lemma counter_step:
  "(2 * length s + 1 \<le> n \<longrightarrow> scan_once (Suc n) s = scan_once n s)
   \<and> (2 * length s + 2 \<le> n \<longrightarrow> array_loop (Suc n) acc s = array_loop n acc s)
   \<and> (2 * length s + 2 \<le> n \<longrightarrow> object_loop (Suc n) pairs s = object_loop n pairs s)"
proof (induction n arbitrary: s acc pairs)
  case 0
  show ?case by simp
next
  case (Suc k)
  have v: "scan_once (Suc k) s = scan_once k s" if "2 * length s + 1 \<le> k" for s
    using Suc that by blast
  have a: "array_loop (Suc k) acc s = array_loop k acc s" if "2 * length s + 2 \<le> k" for s acc
    using Suc that by blast
  have b: "object_loop (Suc k) pairs s = object_loop k pairs s" if "2 * length s + 2 \<le> k"
    for s pairs
    using Suc that by blast
  have "scan_once (Suc (Suc k)) s = scan_once (Suc k) s" if n: "2 * length s + 1 \<le> Suc k"
  proof (cases s)
    case Nil
    then show ?thesis by simp
  next
    case (Cons c cs)
    show ?thesis
    proof (cases "skip_ws cs")
      case Nil
      then show ?thesis
        by (simp add: Cons del: array_loop.simps object_loop.simps)
    next
      case ws: (Cons d r)
      have "length (d # r) \<le> length cs"
        using length_skip_ws [of cs] ws by simp
      with n Cons have "2 * length r + 2 \<le> k" "2 * length (d # r) + 2 \<le> k"
        by simp_all
      then have "object_loop (Suc k) [] r = object_loop k [] r"
        and "array_loop (Suc k) [] (d # r) = array_loop k [] (d # r)"
        by (simp_all only: a b)
      then show ?thesis
        by (simp add: Cons ws del: array_loop.simps object_loop.simps)
    qed
  qed
  moreover have "array_loop (Suc (Suc k)) acc s = array_loop (Suc k) acc s"
    if n: "2 * length s + 2 \<le> Suc k"
  proof -
    from n have sv: "scan_once (Suc k) s = scan_once k s"
      by (intro v) simp
    show ?thesis
    proof (cases "scan_once k s")
      case None
      then show ?thesis
        unfolding array_loop.simps(2) [of "Suc k" acc s] array_loop.simps(2) [of k acc s]
        by (simp only: sv option.case)
    next
      case (Some p)
      obtain x r1 where p: "p = (x, r1)" by (cases p)
      with Some scan_shorter [of k s x r1] have l1: "length r1 < length s"
        by simp
      show ?thesis
      proof (cases "skip_ws r1")
        case Nil
        with Some p show ?thesis
          unfolding array_loop.simps(2) [of "Suc k" acc s] array_loop.simps(2) [of k acc s]
          by (simp only: sv option.case prod.case list.case)
      next
        case (Cons d r2)
        have "length (skip_ws r2) < length r1"
          using skip_ws_ConsD [OF Cons] length_skip_ws [of r2] by simp
        with l1 n have "2 * length (skip_ws r2) + 2 \<le> k"
          by simp
        then have "array_loop (Suc k) (acc @ [x]) (skip_ws r2)
                     = array_loop k (acc @ [x]) (skip_ws r2)"
          by (rule a)
        with Some p Cons show ?thesis
          unfolding array_loop.simps(2) [of "Suc k" acc s] array_loop.simps(2) [of k acc s]
          by (simp only: sv option.case prod.case list.case)
      qed
    qed
  qed
  moreover have "object_loop (Suc (Suc k)) pairs s = object_loop (Suc k) pairs s"
    if n: "2 * length s + 2 \<le> Suc k"
  proof (cases "scanstring s")
    case None
    then show ?thesis
      unfolding object_loop.simps(2) [of "Suc k" pairs s] object_loop.simps(2) [of k pairs s]
      by (simp only: option.case)
  next
    case (Some p)
    obtain key r0 where p: "p = (key, r0)" by (cases p)
    with Some scanstring_shorter [of s key r0] have l0: "length r0 < length s"
      by simp
    show ?thesis
    proof (cases "skip_ws r0")
      case Nil
      with Some p show ?thesis
        unfolding object_loop.simps(2) [of "Suc k" pairs s] object_loop.simps(2) [of k pairs s]
        by (simp only: option.case prod.case list.case)
    next
      case ws0: (Cons colon r1)
      have l1: "length (skip_ws r1) < length r0"
        using skip_ws_ConsD [OF ws0] length_skip_ws [of r1] by simp
      with l0 n have "2 * length (skip_ws r1) + 1 \<le> k"
        by simp
      then have sv: "scan_once (Suc k) (skip_ws r1) = scan_once k (skip_ws r1)"
        by (rule v)
      show ?thesis
      proof (cases "scan_once k (skip_ws r1)")
        case None
        with Some p ws0 show ?thesis
          unfolding object_loop.simps(2) [of "Suc k" pairs s] object_loop.simps(2) [of k pairs s]
          by (simp only: sv option.case prod.case list.case)
      next
        case sc: (Some q)
        obtain x r2 where q: "q = (x, r2)" by (cases q)
        with sc scan_shorter [of k "skip_ws r1" x r2] have l2: "length r2 < length (skip_ws r1)"
          by simp
        show ?thesis
        proof (cases "skip_ws r2")
          case Nil
          with Some p ws0 sc q show ?thesis
            unfolding object_loop.simps(2) [of "Suc k" pairs s] object_loop.simps(2) [of k pairs s]
            by (simp only: sv option.case prod.case list.case)
        next
          case ws2: (Cons d r3)
          show ?thesis
          proof (cases "skip_ws r3")
            case Nil
            with Some p ws0 sc q ws2 show ?thesis
              unfolding object_loop.simps(2) [of "Suc k" pairs s]
                object_loop.simps(2) [of k pairs s]
              by (simp only: sv option.case prod.case list.case)
          next
            case ws3: (Cons e r4)
            have "length r4 < length r2"
              using skip_ws_ConsD [OF ws2] skip_ws_ConsD [OF ws3] by simp
            with l2 l1 l0 n have "2 * length r4 + 2 \<le> k"
              by simp
            then have "object_loop (Suc k) (pairs @ [(key, x)]) r4
                         = object_loop k (pairs @ [(key, x)]) r4"
              by (rule b)
            with Some p ws0 sc q ws2 ws3 show ?thesis
              unfolding object_loop.simps(2) [of "Suc k" pairs s]
                object_loop.simps(2) [of k pairs s]
              by (simp only: sv option.case prod.case list.case)
          qed
        qed
      qed
    qed
  qed
  ultimately show ?case by blast
qed

lemma scan_once_counter:
  "2 * length s + 1 \<le> n \<Longrightarrow> scan_once n s = scan_once (2 * length s + 1) s"
proof (induction n rule: dec_induct)
  case base
  show ?case by simp
next
  case (step n)
  then show ?case
    using counter_step [of s n] by simp
qed

text \<open>Any counter from \<open>2 * length s + 1\<close> on gives the result of \<open>json_loads\<close>.\<close>

lemma json_loads_counter:
  assumes "2 * length s + 1 \<le> n"
  shows "json_loads s =
           (case scan_once n (skip_ws s) of
              None \<Rightarrow> None
            | Some (obj, rest) \<Rightarrow> if skip_ws rest = [] then Some obj else None)"
proof -
  have l: "2 * length (skip_ws s) + 1 \<le> 2 * length s + 1"
    using length_skip_ws [of s] by simp
  have "scan_once n (skip_ws s) = scan_once (2 * length (skip_ws s) + 1) (skip_ws s)"
    using l assms by (intro scan_once_counter) simp
  also have "\<dots> = scan_once (2 * length s + 1) (skip_ws s)"
    using scan_once_counter [OF l] by simp
  finally show ?thesis
    by (simp add: json_loads_def)
qed

section \<open>Saving and loading\<close>

lemma is_book_list_library_json: "is_book_list (library_json library)"
  by (simp add: is_book_list_def library_json_def list_all_iff is_book_object_def book_dict_def)

lemma load_save:
  "load_library LIBRARY_FILE (save_library LIBRARY_FILE (library_json library) files)
     = library_json library"
  by (simp add: load_library_def save_library_def json_loads_dumps exact_library_json)






section \<open>The file after a mutation\<close>

text \<open>
  C1, as the claim states it, fails: in the menu front-end, adding Dune to the empty
  library of a first run leaves no file at all, so that what is on disk (nothing,
  loaded as the empty list) is not the library in memory.
\<close>

theorem lm_add_book_not_saved:
  "lm_main_step (Choice1 ''Dune'' ''Herbert'' 1965 ''Sci-Fi'' ''no'') ([], no_files)
     = ([dune], no_files)
   \<and> no_files lm_LIBRARY_FILE \<noteq> Some (json_dumps (library_json [dune]))
   \<and> load_library lm_LIBRARY_FILE no_files \<noteq> library_json [dune]"
proof -
  have "answer_yes ''no'' = False"
    by code_simp
  then show ?thesis
    by (simp add: lm_add_book_def dune_def no_files_def load_library_def library_json_def)
qed

text \<open>
  C1, amended. In the form front-end, after every successful add, every successful
  remove and every edit saved with its form, the text of the file is the serialization
  of the library in memory, and loading gives that library back. In the menu front-end
  no choice but the last writes the file; choice 8 (exit) saves, and then the text of
  the file is the serialization of the library in memory.
\<close>

theorem save_after_mutation:
  "(app_add_book l1 title author year genre read_status f1 = (l1', f1', BookAdded) \<longrightarrow>
      f1' app_LIBRARY_FILE = Some (json_dumps (library_json l1'))
      \<and> load_library app_LIBRARY_FILE f1' = library_json l1')
   \<and> (app_remove_book l2 title2 f2 = (l2', f2', BookRemoved) \<longrightarrow>
      f2' app_LIBRARY_FILE = Some (json_dumps (library_json l2'))
      \<and> load_library app_LIBRARY_FILE f2' = library_json l2')
   \<and> (app_edit_book l3 title3 new_title new_author new_year new_genre new_read submitted f3
        = (l3', f3', BookUpdated) \<longrightarrow>
      f3' app_LIBRARY_FILE = Some (json_dumps (library_json l3'))
      \<and> load_library app_LIBRARY_FILE f3' = library_json l3')
   \<and> (choice \<noteq> Choice8 \<longrightarrow> snd (lm_main_step choice (l4, f4)) = f4)
   \<and> (lm_main_step Choice8 (l5, f5) = (l5', f5') \<longrightarrow>
      l5' = l5
      \<and> f5' lm_LIBRARY_FILE = Some (json_dumps (library_json l5'))
      \<and> load_library lm_LIBRARY_FILE f5' = library_json l5')"
proof (intro conjI impI)
  assume "app_add_book l1 title author year genre read_status f1 = (l1', f1', BookAdded)"
  then have "f1' = save_library app_LIBRARY_FILE (library_json l1') f1"
    by (auto simp: app_add_book_def Let_def split: if_splits)
  then show "f1' app_LIBRARY_FILE = Some (json_dumps (library_json l1'))"
    and "load_library app_LIBRARY_FILE f1' = library_json l1'"
    by (simp add: save_library_def, simp add: load_save)
next
  assume "app_remove_book l2 title2 f2 = (l2', f2', BookRemoved)"
  then have "f2' = save_library app_LIBRARY_FILE (library_json l2') f2"
    by (auto simp: app_remove_book_def Let_def split: option.splits)
  then show "f2' app_LIBRARY_FILE = Some (json_dumps (library_json l2'))"
    and "load_library app_LIBRARY_FILE f2' = library_json l2'"
    by (simp add: save_library_def, simp add: load_save)
next
  assume "app_edit_book l3 title3 new_title new_author new_year new_genre new_read submitted f3
            = (l3', f3', BookUpdated)"
  then have "f3' = save_library app_LIBRARY_FILE (library_json l3') f3"
    by (auto simp: app_edit_book_def split: option.splits if_splits)
  then show "f3' app_LIBRARY_FILE = Some (json_dumps (library_json l3'))"
    and "load_library app_LIBRARY_FILE f3' = library_json l3'"
    by (simp add: save_library_def, simp add: load_save)
next
  assume "choice \<noteq> Choice8"
  then show "snd (lm_main_step choice (l4, f4)) = f4"
    by (cases choice) simp_all
next
  assume "lm_main_step Choice8 (l5, f5) = (l5', f5')"
  then have "l5' = l5" and "f5' = save_library lm_LIBRARY_FILE (library_json l5') f5"
    by auto
  then show "l5' = l5" and "f5' lm_LIBRARY_FILE = Some (json_dumps (library_json l5'))"
    and "load_library lm_LIBRARY_FILE f5' = library_json l5'"
    by (simp, simp add: save_library_def, simp add: load_save)
qed

theorem save_after_mutation_witness:
  "load_library app_LIBRARY_FILE
     (fst (snd (app_add_book [] ''Dune'' ''Herbert'' 1965 ''Sci-Fi'' False no_files)))
     = library_json [dune]
   \<and> load_library app_LIBRARY_FILE (fst (snd (app_remove_book [emma, dune] ''dune'' no_files)))
     = library_json [emma]
   \<and> load_library app_LIBRARY_FILE
       (fst (snd (app_edit_book [emma] ''EMMA'' ''Emma'' ''Jane Austen'' 1815 ''Novel'' True True
                    no_files)))
     = library_json [emma\<lparr>Author := ''Jane Austen''\<rparr>]
   \<and> snd (lm_main_step (Choice2 ''dune'') ([emma, dune], no_files)) = no_files
   \<and> load_library lm_LIBRARY_FILE (snd (lm_main_step Choice8 ([emma, dune], no_files)))
     = library_json [emma, dune]"
proof -
  have h1: "app_add_book [] ''Dune'' ''Herbert'' 1965 ''Sci-Fi'' False no_files
              = ([dune], save_library app_LIBRARY_FILE (library_json [dune]) no_files, BookAdded)"
    by (simp add: app_add_book_def dune_def Let_def)
  have "find (title_matches ''dune'') [emma, dune] = Some dune"
    by code_simp
  moreover have "remove1 dune [emma, dune] = [emma]"
    by (simp add: dune_def emma_def)
  ultimately have h2: "app_remove_book [emma, dune] ''dune'' no_files
              = ([emma], save_library app_LIBRARY_FILE (library_json [emma]) no_files, BookRemoved)"
    by (simp add: app_remove_book_def Let_def)
  have "title_matches ''EMMA'' emma"
    by code_simp
  then have h3: "app_edit_book [emma] ''EMMA'' ''Emma'' ''Jane Austen'' 1815 ''Novel'' True True
                   no_files
              = ([emma\<lparr>Author := ''Jane Austen''\<rparr>],
                 save_library app_LIBRARY_FILE
                   (library_json [emma\<lparr>Author := ''Jane Austen''\<rparr>]) no_files,
                 BookUpdated)"
    by (simp add: app_edit_book_def app_edit_fields_def) (simp add: emma_def)
  have h5: "lm_main_step Choice8 ([emma, dune], no_files)
              = ([emma, dune], save_library lm_LIBRARY_FILE (library_json [emma, dune]) no_files)"
    by simp
  show ?thesis
    using save_after_mutation [where ?l1.0 = "[]" and title = "''Dune''" and author = "''Herbert''"
        and year = 1965 and genre = "''Sci-Fi''" and read_status = False and ?f1.0 = no_files
        and ?l1' = "[dune]"
        and ?f1' = "save_library app_LIBRARY_FILE (library_json [dune]) no_files"
        and ?l2.0 = "[emma, dune]" and ?title2.0 = "''dune''" and ?f2.0 = no_files
        and ?l2' = "[emma]"
        and ?f2' = "save_library app_LIBRARY_FILE (library_json [emma]) no_files"
        and ?l3.0 = "[emma]" and ?title3.0 = "''EMMA''" and new_title = "''Emma''"
        and new_author = "''Jane Austen''" and new_year = 1815 and new_genre = "''Novel''"
        and new_read = True and submitted = True and ?f3.0 = no_files
        and ?l3' = "[emma\<lparr>Author := ''Jane Austen''\<rparr>]"
        and ?f3' = "save_library app_LIBRARY_FILE
                      (library_json [emma\<lparr>Author := ''Jane Austen''\<rparr>]) no_files"
        and choice = "Choice2 ''dune''" and ?l4.0 = "[emma, dune]" and ?f4.0 = no_files
        and ?l5.0 = "[emma, dune]" and ?f5.0 = no_files and ?l5' = "[emma, dune]"
        and ?f5' = "save_library lm_LIBRARY_FILE (library_json [emma, dune]) no_files"]
      h1 h2 h3 h5
    by simp
qed

end
